theory Spec2Isabelle
  imports Main "HOL-Library.Word" "HOL-Library.Log_Nat"
begin

section \<open>The cell type: IEEE 754 binary32, as the C type float\<close>

text \<open>
  Every cell of the three device buffers is a C \<^verbatim>\<open>float\<close>.  A value is its three
  fields (sign, 8 bit biased exponent, 23 bit fraction), so the type has exactly
  the 2^32 bit patterns.  Arithmetic is exact integer arithmetic on
  mantissa * 2^quantum followed by one rounding to nearest, ties to even;
  subnormals are kept (no flush to zero).  Each source operator is one
  operation with its own rounding; the contraction of a multiply and an add
  into one fused operation, which a compiler may perform, is not modelled.
\<close>

datatype float = Float (sign_bit: bool) (exp_field: "8 word") (frac_field: "23 word")

definition is_nan :: "float \<Rightarrow> bool" where
  "is_nan a \<longleftrightarrow> exp_field a = 255 \<and> frac_field a \<noteq> 0"

definition is_inf :: "float \<Rightarrow> bool" where
  "is_inf a \<longleftrightarrow> exp_field a = 255 \<and> frac_field a = 0"

definition is_zero :: "float \<Rightarrow> bool" where
  "is_zero a \<longleftrightarrow> exp_field a = 0 \<and> frac_field a = 0"

definition nan :: float where
  "nan = Float False 255 (- 1)"

definition infinity :: "bool \<Rightarrow> float" where
  "infinity s = Float s 255 0"

definition zero :: "bool \<Rightarrow> float" where
  "zero s = Float s 0 0"

text \<open>A finite value is \<open>\<plusminus> mantissa * 2 ^ quantum\<close>.\<close>

definition mantissa :: "float \<Rightarrow> int" where
  "mantissa a = (if exp_field a = 0 then uint (frac_field a) else 2 ^ 23 + uint (frac_field a))"

definition quantum :: "float \<Rightarrow> int" where
  "quantum a = (if exp_field a = 0 then - 149 else uint (exp_field a) - 150)"

definition signed_mantissa :: "float \<Rightarrow> int" where
  "signed_mantissa a = (if sign_bit a then - mantissa a else mantissa a)"

text \<open>\<open>rne a k\<close> is \<open>a / 2 ^ k\<close> rounded to the nearest integer, a tie going to the even one.\<close>

definition rne :: "int \<Rightarrow> nat \<Rightarrow> int" where
  "rne a k = (let d = a div 2 ^ k; r = a mod 2 ^ k
              in if 2 ^ k < 2 * r \<or> (2 * r = 2 ^ k \<and> odd d) then d + 1 else d)"

text \<open>
  \<open>pack s q M\<close> is the value \<open>\<plusminus> M * 2 ^ q\<close> as sign, exponent and fraction fields, for
  \<open>- 149 \<le> q\<close> and \<open>0 \<le> M \<le> 2 ^ 24\<close>.  The fields come out of one number,
  \<open>(q + 149) * 2 ^ 23 + M\<close>, so that a mantissa of \<open>2 ^ 24\<close> carries into the exponent;
  from the exponent field 255 on the value is an infinity.
\<close>

definition pack :: "bool \<Rightarrow> int \<Rightarrow> int \<Rightarrow> float" where
  "pack s q M =
     (let enc = (q + 149) * 2 ^ 23 + M
      in if 255 * 2 ^ 23 \<le> enc then infinity s
         else Float s (word_of_int (enc div 2 ^ 23)) (word_of_int (enc mod 2 ^ 23)))"

text \<open>
  \<open>round_dyadic s a e\<close> is the binary32 value nearest to \<open>\<plusminus> a * 2 ^ e\<close> for \<open>0 < a\<close>:
  24 significant bits, the quantum never below \<open>2 ^ - 149\<close>, overflow to infinity.
\<close>

definition round_dyadic :: "bool \<Rightarrow> int \<Rightarrow> int \<Rightarrow> float" where
  "round_dyadic s a e =
     (let q = max (e + bitlen a - 24) (- 149)
      in pack s q (if q \<le> e then a * 2 ^ nat (e - q) else rne a (nat (q - e))))"

text \<open>
  \<open>round_ratio s p d e\<close> is the binary32 value nearest to \<open>\<plusminus> (p / d) * 2 ^ e\<close> for
  positive \<open>p\<close> and \<open>d\<close>: a quotient of at least 26 bits and a sticky bit for the
  remainder round as the exact quotient does.
\<close>

definition round_ratio :: "bool \<Rightarrow> int \<Rightarrow> int \<Rightarrow> int \<Rightarrow> float" where
  "round_ratio s p d e =
     (let k = nat (max 0 (bitlen d + 26 - bitlen p));
          n = p * 2 ^ k;
          sticky = (if n mod d = 0 then 0 else 1)
      in round_dyadic s (2 * (n div d) + sticky) (e - int k - 1))"

definition fneg :: "float \<Rightarrow> float" where
  "fneg a = Float (\<not> sign_bit a) (exp_field a) (frac_field a)"

definition fadd :: "float \<Rightarrow> float \<Rightarrow> float" where
  "fadd x y =
     (if is_nan x \<or> is_nan y then nan
      else if is_inf x then (if is_inf y \<and> sign_bit x \<noteq> sign_bit y then nan else x)
      else if is_inf y then y
      else let e = min (quantum x) (quantum y);
               m = signed_mantissa x * 2 ^ nat (quantum x - e)
                 + signed_mantissa y * 2 ^ nat (quantum y - e)
           in if m = 0 then zero (sign_bit x \<and> sign_bit y)
              else round_dyadic (m < 0) \<bar>m\<bar> e)"

definition fsub :: "float \<Rightarrow> float \<Rightarrow> float" where
  "fsub x y = fadd x (fneg y)"

definition fmul :: "float \<Rightarrow> float \<Rightarrow> float" where
  "fmul x y =
     (let s = (sign_bit x \<noteq> sign_bit y)
      in if is_nan x \<or> is_nan y then nan
         else if is_inf x \<or> is_inf y then (if is_zero x \<or> is_zero y then nan else infinity s)
         else if mantissa x * mantissa y = 0 then zero s
         else round_dyadic s (mantissa x * mantissa y) (quantum x + quantum y))"

definition fdiv :: "float \<Rightarrow> float \<Rightarrow> float" where
  "fdiv x y =
     (let s = (sign_bit x \<noteq> sign_bit y)
      in if is_nan x \<or> is_nan y then nan
         else if is_inf x then (if is_inf y then nan else infinity s)
         else if is_inf y then zero s
         else if is_zero y then (if is_zero x then nan else infinity s)
         else if is_zero x then zero s
         else round_ratio s (mantissa x) (mantissa y) (quantum x - quantum y))"

text \<open>The C comparisons \<^verbatim>\<open>==\<close> and \<^verbatim>\<open>!=\<close>: a NaN differs from everything, the two zeros are equal.\<close>

definition float_eq :: "float \<Rightarrow> float \<Rightarrow> bool" where
  "float_eq x y \<longleftrightarrow> \<not> is_nan x \<and> \<not> is_nan y \<and> (x = y \<or> (is_zero x \<and> is_zero y))"

definition float_ne :: "float \<Rightarrow> float \<Rightarrow> bool" where
  "float_ne x y \<longleftrightarrow> \<not> float_eq x y"

text \<open>The conversion of an \<^verbatim>\<open>int\<close> operand, and a decimal literal \<open>p / d\<close> with suffix f.\<close>

definition float_of_int :: "int \<Rightarrow> float" where
  "float_of_int n = (if n = 0 then zero False else round_dyadic (n < 0) \<bar>n\<bar> 0)"

definition float_literal :: "int \<Rightarrow> int \<Rightarrow> float" where
  "float_literal p d = (if p = 0 then zero False else round_ratio False p d 0)"


section \<open>The constants of the program\<close>

definition DIM :: nat where
  "DIM = 1024"

definition MAX_TEMPERATURE :: float where
  "MAX_TEMPERATURE = float_literal 10 10"

definition MIN_TEMPERATURE :: float where
  "MIN_TEMPERATURE = float_literal 1 10000"

definition SPEED :: float where
  "SPEED = float_literal 2 10"

definition TIME_STEPS_PER_FRAME :: nat where
  "TIME_STEPS_PER_FRAME = 50"

section \<open>Device memory and textures\<close>

text \<open>
  The three device arrays of \<^verbatim>\<open>struct Data\<close> that the kernels touch.  A device pointer
  names one of the three allocations of \<^verbatim>\<open>main\<close>; the texture references are bound
  there, once, each to the array of the same name.  A subscript outside an array
  is an error value: the program has no defined behaviour there.
\<close>

record Data =
  device_heaters :: "float list"
  device_input :: "float list"
  device_output :: "float list"

datatype devptr = Heaters | Input | Output

datatype texture = texture_heaters | texture_input | texture_output

datatype error = OutOfRange

fun deref :: "Data \<Rightarrow> devptr \<Rightarrow> float list" where
  "deref d Heaters = device_heaters d"
| "deref d Input = device_input d"
| "deref d Output = device_output d"

fun assign :: "devptr \<Rightarrow> float list \<Rightarrow> Data \<Rightarrow> Data" where
  "assign Heaters b d = d\<lparr>device_heaters := b\<rparr>"
| "assign Input b d = d\<lparr>device_input := b\<rparr>"
| "assign Output b d = d\<lparr>device_output := b\<rparr>"

fun bound :: "texture \<Rightarrow> devptr" where
  "bound texture_heaters = Heaters"
| "bound texture_input = Input"
| "bound texture_output = Output"

definition in_range :: "float list \<Rightarrow> int \<Rightarrow> bool" where
  "in_range b i \<longleftrightarrow> 0 \<le> i \<and> i < int (length b)"

definition tex1Dfetch :: "Data \<Rightarrow> texture \<Rightarrow> int \<Rightarrow> error + float" where
  "tex1Dfetch d t i =
     (if in_range (deref d (bound t)) i then Inr (deref d (bound t) ! nat i) else Inl OutOfRange)"

definition store :: "devptr \<Rightarrow> int \<Rightarrow> float \<Rightarrow> Data \<Rightarrow> error + Data" where
  "store ptr i v d =
     (if in_range (deref d ptr) i then Inr (assign ptr ((deref d ptr)[nat i := v]) d)
      else Inl OutOfRange)"

section \<open>The kernels, one thread at a time\<close>

text \<open>
  A kernel body is run by one thread, which knows the launch geometry
  (\<^verbatim>\<open>gridDim\<close>, \<^verbatim>\<open>blockDim\<close>) and its own place in it (\<^verbatim>\<open>blockIdx\<close>, \<^verbatim>\<open>threadIdx\<close>); only
  the x and y components are used.  The C \<^verbatim>\<open>int\<close>s are unbounded integers here: with
  DIM = 1024 no index computation leaves the range of 32 bits.
\<close>

type_synonym dim3 = "int \<times> int"

definition maintain_heaters :: "dim3 \<Rightarrow> dim3 \<Rightarrow> devptr \<Rightarrow> dim3 \<Rightarrow> dim3 \<Rightarrow> Data \<Rightarrow> error + Data" where
  "maintain_heaters gridDim blockDim ptr blockIdx threadIdx d =
     (let x = fst threadIdx + fst blockIdx * fst blockDim;
          y = snd threadIdx + snd blockIdx * snd blockDim;
          current_idx = x + y * fst blockDim * fst gridDim
      in case tex1Dfetch d texture_heaters current_idx of
           Inl e \<Rightarrow> Inl e
         | Inr heat_source \<Rightarrow>
             if float_ne heat_source (float_of_int 0) then store ptr current_idx heat_source d
             else Inr d)"

text \<open>The four neighbour subscripts of lines 206 to 217, each computed and then adjusted.\<close>

definition left_idx :: "int \<Rightarrow> int \<Rightarrow> int" where
  "left_idx x current_idx = (let l = current_idx - 1 in if x = 0 then l + 1 else l)"

definition right_idx :: "int \<Rightarrow> int \<Rightarrow> int \<Rightarrow> int" where
  "right_idx side x current_idx = (let r = current_idx + 1 in if x = side - 1 then r - 1 else r)"

definition upper_idx :: "int \<Rightarrow> int \<Rightarrow> int \<Rightarrow> int" where
  "upper_idx side y current_idx = (let u = current_idx - side in if y = 0 then u + side else u)"

definition lower_idx :: "int \<Rightarrow> int \<Rightarrow> int \<Rightarrow> int" where
  "lower_idx side y current_idx = (let l = current_idx + side in if y = side - 1 then l - side else l)"

definition next_val :: "float \<Rightarrow> float \<Rightarrow> float \<Rightarrow> float \<Rightarrow> float \<Rightarrow> float" where
  "next_val current left right upper lower =
     (let gradient = fsub (fadd (fadd (fadd left right) upper) lower)
                          (fmul (float_of_int 4) current)
      in fadd current (fmul SPEED gradient))"

definition temperature_update ::
    "int \<Rightarrow> dim3 \<Rightarrow> dim3 \<Rightarrow> devptr \<Rightarrow> bool \<Rightarrow> dim3 \<Rightarrow> dim3 \<Rightarrow> Data \<Rightarrow> error + Data" where
  "temperature_update side gridDim blockDim ptr flag_IO blockIdx threadIdx d =
     (let x = fst threadIdx + fst blockIdx * fst blockDim;
          y = snd threadIdx + snd blockIdx * snd blockDim;
          current_idx = x + y * fst blockDim * fst gridDim;
          tex = (if flag_IO then texture_input else texture_output)
      in case tex1Dfetch d tex current_idx of Inl e \<Rightarrow> Inl e | Inr current \<Rightarrow>
        (case tex1Dfetch d tex (left_idx x current_idx) of Inl e \<Rightarrow> Inl e | Inr left \<Rightarrow>
        (case tex1Dfetch d tex (right_idx side x current_idx) of Inl e \<Rightarrow> Inl e | Inr right \<Rightarrow>
        (case tex1Dfetch d tex (upper_idx side y current_idx) of Inl e \<Rightarrow> Inl e | Inr upper \<Rightarrow>
        (case tex1Dfetch d tex (lower_idx side y current_idx) of Inl e \<Rightarrow> Inl e | Inr lower \<Rightarrow>
           store ptr current_idx (next_val current left right upper lower) d)))))"

section \<open>Kernel launches\<close>

text \<open>
  A launch runs the body once for every thread of every block.  A thread writes one
  cell of the array it is given and reads through textures only, and no launch of
  \<^verbatim>\<open>animate_display\<close> writes the array its texture reads; the threads are run here
  one after the other, blocks and threads in row-major order.  A launch with no
  block runs no thread.
\<close>

definition threads :: "dim3 \<Rightarrow> dim3 \<Rightarrow> (dim3 \<times> dim3) list" where
  "threads gridDim blockDim =
     concat (map (\<lambda>blk_y. concat (map (\<lambda>blk_x. concat (map (\<lambda>thr_y. map (\<lambda>thr_x. ((blk_x, blk_y), (thr_x, thr_y)))
       [0 .. fst blockDim - 1]) [0 .. snd blockDim - 1])) [0 .. fst gridDim - 1])) [0 .. snd gridDim - 1])"

fun run_threads :: "(dim3 \<Rightarrow> dim3 \<Rightarrow> Data \<Rightarrow> error + Data) \<Rightarrow> (dim3 \<times> dim3) list \<Rightarrow> Data \<Rightarrow> error + Data" where
  "run_threads k [] d = Inr d"
| "run_threads k (t # ts) d =
     (case k (fst t) (snd t) d of Inl e \<Rightarrow> Inl e | Inr d' \<Rightarrow> run_threads k ts d')"

definition launch ::
    "(dim3 \<Rightarrow> dim3 \<Rightarrow> dim3 \<Rightarrow> dim3 \<Rightarrow> Data \<Rightarrow> error + Data) \<Rightarrow> dim3 \<Rightarrow> dim3 \<Rightarrow> Data \<Rightarrow> error + Data" where
  "launch k gridDim blockDim d = run_threads (k gridDim blockDim) (threads gridDim blockDim) d"

section \<open>The frame: animate_display\<close>

text \<open>The roles of the two arrays under the flag, lines 138 to 144.\<close>

definition input_ptr :: "bool \<Rightarrow> devptr" where
  "input_ptr flag_IO = (if flag_IO = True then Input else Output)"

definition output_ptr :: "bool \<Rightarrow> devptr" where
  "output_ptr flag_IO = (if flag_IO = True then Output else Input)"

text \<open>One pass of the loop body of lines 135 to 152, for a grid of \<open>side\<close> by \<open>side\<close> cells.\<close>

definition sub_step :: "int \<Rightarrow> bool \<Rightarrow> Data \<Rightarrow> error + Data" where
  "sub_step side flag_IO d =
     (let blocks_per_grid = (side div 16, side div 16);
          threads_per_block = (16, 16)
      in case launch (\<lambda>g b. maintain_heaters g b (input_ptr flag_IO))
                blocks_per_grid threads_per_block d of
           Inl e \<Rightarrow> Inl e
         | Inr d' \<Rightarrow>
             launch (\<lambda>g b. temperature_update side g b (output_ptr flag_IO) flag_IO)
               blocks_per_grid threads_per_block d')"

text \<open>The loop: \<open>n\<close> passes from the flag \<open>flag_IO\<close>, which every pass negates.\<close>

fun time_steps :: "nat \<Rightarrow> int \<Rightarrow> bool \<Rightarrow> Data \<Rightarrow> error + bool \<times> Data" where
  "time_steps 0 side flag_IO d = Inr (flag_IO, d)"
| "time_steps (Suc n) side flag_IO d =
     (case sub_step side flag_IO d of
        Inl e \<Rightarrow> Inl e
      | Inr d' \<Rightarrow> time_steps n side (\<not> flag_IO) d')"

text \<open>
  The frame.  \<^verbatim>\<open>float_to_color\<close> and the bitmap belong to Common/, which is not among
  the source files: the result is the device memory after the loop and the array
  handed to \<^verbatim>\<open>float_to_color\<close>, which is always \<^verbatim>\<open>data->device_input\<close>.
\<close>

definition animate_display :: "Data \<Rightarrow> error + Data \<times> float list" where
  "animate_display d =
     (case time_steps TIME_STEPS_PER_FRAME (int DIM) True d of
        Inl e \<Rightarrow> Inl e
      | Inr (flag_IO, d') \<Rightarrow> Inr (d', device_input d'))"

section \<open>The heater map: main\<close>

text \<open>
  Modelled from the spec: \<^verbatim>\<open>AnimateBitmap::size\<close> of Common/animate.h, which is not
  among the source files.  The grid has DIM by DIM cells of one float, four bytes
  each, and \<^verbatim>\<open>bitmap.size()\<close> is the size in bytes of each device array.
\<close>

definition bitmap_size :: nat where
  "bitmap_size = DIM * DIM * 4"

text \<open>\<^verbatim>\<open>cudaMemcpy\<close> of \<open>count\<close> bytes of floats, host to device.\<close>

definition cudaMemcpy :: "float list \<Rightarrow> float list \<Rightarrow> nat \<Rightarrow> float list" where
  "cudaMemcpy dst src count = take (count div 4) src @ drop (count div 4) dst"

text \<open>
  One pass of the loop of lines 84 to 102 on the host array.  The four single
  cells and the block of lines 98 to 101 are written again in every pass.  The
  subscripts are natural numbers: none is negative, and with DIM = 1024 each is
  below DIM * DIM.
\<close>

definition heaters_grid_pass :: "nat \<Rightarrow> float list \<Rightarrow> float list" where
  "heaters_grid_pass i heaters_grid =
     (let g = heaters_grid[i := float_literal 0 10];
          x = i mod DIM;
          y = i div DIM;
          g = (if 300 < x \<and> x < 600 \<and> 310 < y \<and> y < 601 then g[i := MAX_TEMPERATURE] else g);
          g = g[100 + 100 * DIM := fdiv (fadd MIN_TEMPERATURE MAX_TEMPERATURE) (float_of_int 2)];
          g = g[100 + 700 * DIM := MIN_TEMPERATURE];
          g = g[300 + 300 * DIM := MIN_TEMPERATURE];
          g = g[700 + 200 * DIM := MIN_TEMPERATURE]
      in fold (\<lambda>k g. fold (\<lambda>j g. g[j + k * DIM := MIN_TEMPERATURE]) [400..<500] g) [800..<900] g)"

text \<open>
  The part of \<^verbatim>\<open>main\<close> that fills \<^verbatim>\<open>device_heaters\<close>, lines 83 to 112: \<open>heaters_grid\<close> is the
  host array as \<^verbatim>\<open>new\<close> returns it, \<open>d\<close> the device memory as \<^verbatim>\<open>cudaMalloc\<close> returns it,
  both with unknown contents.
\<close>

definition main :: "float list \<Rightarrow> Data \<Rightarrow> Data" where
  "main heaters_grid d =
     (let g = fold heaters_grid_pass [0..<DIM * DIM] heaters_grid;
          d = d\<lparr>device_heaters := cudaMemcpy (device_heaters d) g bitmap_size\<rparr>;
          g = fold (\<lambda>j g. fold (\<lambda>i g. g[i + j * DIM := MAX_TEMPERATURE]) [0..<200] g) [800..<DIM] g
      in d\<lparr>device_heaters := cudaMemcpy (device_heaters d) g bitmap_size\<rparr>)"

section \<open>Notions used to state the properties\<close>

text \<open>The cell a thread works on: the value of \<^verbatim>\<open>current_idx\<close> in both kernels.\<close>

definition thread_x :: "dim3 \<Rightarrow> dim3 \<times> dim3 \<Rightarrow> int" where
  "thread_x blockDim t = fst (snd t) + fst (fst t) * fst blockDim"

definition thread_y :: "dim3 \<Rightarrow> dim3 \<times> dim3 \<Rightarrow> int" where
  "thread_y blockDim t = snd (snd t) + snd (fst t) * snd blockDim"

definition cell :: "dim3 \<Rightarrow> dim3 \<Rightarrow> dim3 \<times> dim3 \<Rightarrow> int" where
  "cell gridDim blockDim t = thread_x blockDim t + thread_y blockDim t * fst blockDim * fst gridDim"

text \<open>A launch geometry that covers a grid of \<open>side\<close> by \<open>side\<close> cells, one thread a cell.\<close>

definition covers :: "int \<Rightarrow> dim3 \<Rightarrow> dim3 \<Rightarrow> bool" where
  "covers side gridDim blockDim \<longleftrightarrow>
     0 \<le> side \<and> 0 < fst blockDim \<and> 0 < snd blockDim \<and>
     fst blockDim * fst gridDim = side \<and> snd blockDim * snd gridDim = side"

text \<open>Device memory whose three arrays have \<open>side * side\<close> cells each.\<close>

definition well_sized :: "int \<Rightarrow> Data \<Rightarrow> bool" where
  "well_sized side d \<longleftrightarrow>
     length (device_heaters d) = nat (side * side) \<and>
     length (device_input d) = nat (side * side) \<and>
     length (device_output d) = nat (side * side)"

text \<open>
  The heater overlay as a function of the heater map \<open>H\<close> and the array \<open>B\<close> it is
  applied to, and the same restricted to the cells in \<open>S\<close> (the cells whose threads
  have run).
\<close>

definition overlay :: "float list \<Rightarrow> float list \<Rightarrow> float list" where
  "overlay H B =
     map (\<lambda>i. if float_ne (H ! i) (float_of_int 0) then H ! i else B ! i) [0..<length B]"

definition overlay_on :: "int set \<Rightarrow> float list \<Rightarrow> float list \<Rightarrow> float list" where
  "overlay_on S H B =
     map (\<lambda>i. if int i \<in> S \<and> float_ne (H ! i) (float_of_int 0) then H ! i else B ! i)
       [0..<length B]"

text \<open>
  The stencil at the cell with subscript \<open>idx\<close> of a row-major grid \<open>B\<close>, and the array
  a stencil pass writes: everywhere, or only at the cells in \<open>S\<close> of an array \<open>out\<close>.
\<close>

definition stencil_cell :: "int \<Rightarrow> float list \<Rightarrow> int \<Rightarrow> float" where
  "stencil_cell side B idx =
     (let x = idx mod side; y = idx div side
      in next_val (B ! nat idx) (B ! nat (left_idx x idx)) (B ! nat (right_idx side x idx))
           (B ! nat (upper_idx side y idx)) (B ! nat (lower_idx side y idx)))"

definition stencil :: "int \<Rightarrow> float list \<Rightarrow> float list" where
  "stencil side B = map (\<lambda>i. stencil_cell side B (int i)) [0..<length B]"

definition stencil_on :: "int set \<Rightarrow> int \<Rightarrow> float list \<Rightarrow> float list \<Rightarrow> float list" where
  "stencil_on S side B out =
     map (\<lambda>i. if int i \<in> S then stencil_cell side B (int i) else out ! i) [0..<length out]"

section \<open>Notions used to reason about rounding\<close>

text \<open>
  A finite float \<open>x\<close> stands for \<open>\<plusminus> A * 2 ^ e\<close>, at a quantum \<open>e\<close> that may be finer than
  its own.
\<close>

definition stands_for :: "float \<Rightarrow> bool \<Rightarrow> int \<Rightarrow> int \<Rightarrow> bool" where
  "stands_for x s A e \<longleftrightarrow>
     exp_field x \<noteq> 255 \<and> sign_bit x = s \<and> e \<le> quantum x \<and>
     mantissa x * 2 ^ nat (quantum x - e) = A"

text \<open>An integer rounded to 24 significant bits, ties to even.\<close>

definition round24 :: "int \<Rightarrow> int" where
  "round24 a = rne a (nat (bitlen a - 24)) * 2 ^ nat (bitlen a - 24)"

section \<open>The heater map as the rules describe it\<close>

text \<open>
  The construction rules in the order they are given, each applied to the whole
  grid and overriding what is there: all cells zero; the rectangle; the four single
  cells; the block of MIN_TEMPERATURE; and, on top of these, the block of
  MAX_TEMPERATURE of the second upload.  A cell of subscript \<open>i\<close> has \<open>x = i mod DIM\<close> and \<open>y = i div DIM\<close>.
\<close>

definition set_region :: "(nat \<Rightarrow> nat \<Rightarrow> bool) \<Rightarrow> float \<Rightarrow> float list \<Rightarrow> float list" where
  "set_region P v g = map (\<lambda>i. if P (i mod DIM) (i div DIM) then v else g ! i) [0..<length g]"

definition first_upload_rules :: "float list" where
  "first_upload_rules =
     (let g = replicate (DIM * DIM) (float_literal 0 10);
          g = set_region (\<lambda>x y. 300 < x \<and> x < 600 \<and> 310 < y \<and> y < 601) MAX_TEMPERATURE g;
          g = set_region (\<lambda>x y. x = 100 \<and> y = 100)
                (fdiv (fadd MIN_TEMPERATURE MAX_TEMPERATURE) (float_of_int 2)) g;
          g = set_region (\<lambda>x y. x = 100 \<and> y = 700) MIN_TEMPERATURE g;
          g = set_region (\<lambda>x y. x = 300 \<and> y = 300) MIN_TEMPERATURE g;
          g = set_region (\<lambda>x y. x = 700 \<and> y = 200) MIN_TEMPERATURE g
      in set_region (\<lambda>x y. 400 \<le> x \<and> x < 500 \<and> 800 \<le> y \<and> y < 900) MIN_TEMPERATURE g)"

definition heater_rules :: "float list" where
  "heater_rules =
     set_region (\<lambda>x y. x < 200 \<and> 800 \<le> y \<and> y < DIM) MAX_TEMPERATURE first_upload_rules"

section \<open>Example device memories\<close>

text \<open>A grid of 16 by 16 cells, which the launch geometry of \<^verbatim>\<open>animate_display\<close> covers with one block.\<close>

definition d16 :: Data where
  "d16 = \<lparr>device_heaters = replicate 256 (zero False),
           device_input = replicate 256 MAX_TEMPERATURE,
           device_output = replicate 256 (zero False)\<rparr>"

text \<open>A grid of DIM by DIM cells, all zero.\<close>

definition d1024 :: Data where
  "d1024 = \<lparr>device_heaters = replicate (DIM * DIM) (zero False),
             device_input = replicate (DIM * DIM) (zero False),
             device_output = replicate (DIM * DIM) (zero False)\<rparr>"

text \<open>
  A grid of 16 by 16 cells with two heater cells, (3, 2) and (8, 2), and two uniform
  arrays of different values, 0.5 and 0.25.
\<close>

definition d16_heated :: Data where
  "d16_heated = \<lparr>device_heaters = (replicate 256 (zero False))[35 := MAX_TEMPERATURE, 40 := MIN_TEMPERATURE],
                  device_input = replicate 256 (float_literal 5 10),
                  device_output = replicate 256 (float_literal 25 100)\<rparr>"

text \<open>
  A grid of DIM by DIM cells in which every cell is a heater, the first hotter than
  the others, and two uniform arrays of different values.
\<close>

definition d1024_heated :: Data where
  "d1024_heated = \<lparr>device_heaters = MAX_TEMPERATURE # replicate (DIM * DIM - 1) MIN_TEMPERATURE,
                    device_input = replicate (DIM * DIM) (float_literal 5 10),
                    device_output = replicate (DIM * DIM) (float_literal 25 100)\<rparr>"

text \<open>
  A grid of 4 by 4 cells that all hold \<open>2 ^ 126\<close>, the least positive float whose
  fourfold is not finite.
\<close>

definition hot4 :: Data where
  "hot4 = \<lparr>device_heaters = replicate 16 (zero False),
            device_input = replicate 16 (Float False 253 0),
            device_output = replicate 16 (zero False)\<rparr>"

text \<open>The grid of 4 by 4 cells with no heater and a single 1 at cell (0, 0).\<close>

definition grid4 :: Data where
  "grid4 = \<lparr>device_heaters = replicate 16 (float_literal 0 1),
             device_input = float_literal 1 1 # replicate 15 (float_literal 0 1),
             device_output = replicate 16 (float_literal 0 1)\<rparr>"

section \<open>The arithmetic on known values\<close>

text \<open>
  The bit patterns of the constants of the program, and some sums, products and
  quotients whose binary32 results are known: ties to even, gradual underflow,
  overflow, the invalid operations.
\<close>

lemma constant_bits:
  "MAX_TEMPERATURE = Float False 127 0"
  "MIN_TEMPERATURE = Float False 113 5355287"
  "SPEED = Float False 124 5033165"
  "fdiv (fadd MIN_TEMPERATURE MAX_TEMPERATURE) (float_of_int 2) = Float False 126 839"
  "float_literal 6 10 = Float False 126 1677722"
  by code_simp+

lemma binary32_examples:
  "fadd (float_literal 1 10) (float_literal 2 10) = float_literal 3 10"
  "fdiv (float_of_int 1) (float_of_int 3) = Float False 125 2796203"
  "fadd (float_of_int 16777216) (float_of_int 1) = float_of_int 16777216"
  "float_of_int 16777219 = Float False 151 2"
  "fmul SPEED SPEED = Float False 122 2348811"
  "fsub (float_of_int 1) SPEED = Float False 126 5033165"
  "fdiv (Float False 0 1) (float_of_int 2) = zero False"
  "fdiv (Float False 0 3) (float_of_int 2) = Float False 0 2"
  "fadd (Float False 254 8388607) (Float False 254 8388607) = infinity False"
  "is_nan (fsub (infinity False) (infinity False))"
  "is_nan (fmul (infinity True) (zero False))"
  "fadd (zero True) (zero False) = zero False"
  by code_simp+

section \<open>Subscripts\<close>

lemma cell_index_bound:
  fixes x y side :: int
  assumes "0 \<le> x" "x < side" "0 \<le> y" "y < side"
  shows "0 \<le> x + y * side" "x + y * side < side * side"
proof -
  show "0 \<le> x + y * side" using assms by simp
  have "y + 1 \<le> side" using assms by simp
  then have "(y + 1) * side \<le> side * side"
    using assms by (intro mult_right_mono) auto
  then show "x + y * side < side * side"
    using assms by (simp add: algebra_simps)
qed

lemma neighbour_subscripts:
  "left_idx x idx = (if x = 0 then idx else idx - 1)"
  "right_idx side x idx = (if x = side - 1 then idx else idx + 1)"
  "upper_idx side y idx = (if y = 0 then idx else idx - side)"
  "lower_idx side y idx = (if y = side - 1 then idx else idx + side)"
  by (simp_all add: left_idx_def right_idx_def upper_idx_def lower_idx_def Let_def)

lemma neighbours_in_grid:
  fixes x y side :: int
  assumes "0 \<le> x" "x < side" "0 \<le> y" "y < side"
  shows "0 \<le> left_idx x (x + y * side) \<and> left_idx x (x + y * side) < side * side"
    and "0 \<le> right_idx side x (x + y * side) \<and> right_idx side x (x + y * side) < side * side"
    and "0 \<le> upper_idx side y (x + y * side) \<and> upper_idx side y (x + y * side) < side * side"
    and "0 \<le> lower_idx side y (x + y * side) \<and> lower_idx side y (x + y * side) < side * side"
proof -
  note b = cell_index_bound[OF assms]
  have ys: "0 \<le> y * side" using assms by simp
  show "0 \<le> left_idx x (x + y * side) \<and> left_idx x (x + y * side) < side * side"
  proof (cases "x = 0")
    case True then show ?thesis using b by (simp add: neighbour_subscripts)
  next
    case False
    then have "left_idx x (x + y * side) = x + y * side - 1"
      by (simp add: neighbour_subscripts)
    then show ?thesis using b ys assms False by linarith
  qed
  show "0 \<le> right_idx side x (x + y * side) \<and> right_idx side x (x + y * side) < side * side"
  proof (cases "x = side - 1")
    case True then show ?thesis using b by (simp add: neighbour_subscripts)
  next
    case False
    then have "x + 1 < side" using assms by simp
    from cell_index_bound[OF _ this assms(3,4)] assms False show ?thesis
      by (simp add: neighbour_subscripts)
  qed
  show "0 \<le> upper_idx side y (x + y * side) \<and> upper_idx side y (x + y * side) < side * side"
  proof (cases "y = 0")
    case True then show ?thesis using b by (simp add: neighbour_subscripts)
  next
    case False
    then have "0 \<le> y - 1" "y - 1 < side" using assms by simp_all
    from cell_index_bound[OF assms(1,2) this] False show ?thesis
      by (simp add: neighbour_subscripts algebra_simps)
  qed
  show "0 \<le> lower_idx side y (x + y * side) \<and> lower_idx side y (x + y * side) < side * side"
  proof (cases "y = side - 1")
    case True then show ?thesis using b by (simp add: neighbour_subscripts)
  next
    case False
    then have "0 \<le> y + 1" "y + 1 < side" using assms by simp_all
    from cell_index_bound[OF assms(1,2) this] False show ?thesis
      by (simp add: neighbour_subscripts algebra_simps)
  qed
qed



text \<open>With DIM = 1024 the subscript arithmetic of the kernels stays within a 32 bit \<^verbatim>\<open>int\<close>.\<close>

lemma subscripts_fit_int32:
  fixes x y :: int
  assumes "0 \<le> x" "x < int DIM" "0 \<le> y" "y < int DIM"
  shows "- (2 ^ 31) \<le> x + y * int DIM - int DIM" "x + y * int DIM + int DIM < 2 ^ 31"
proof -
  note b = cell_index_bound[OF assms]
  show "- (2 ^ 31) \<le> x + y * int DIM - int DIM" using b(1) by (simp add: DIM_def)
  show "x + y * int DIM + int DIM < 2 ^ 31" using b(2) by (simp add: DIM_def)
qed

section \<open>One thread\<close>

lemma deref_assign: "deref (assign p b d) p' = (if p = p' then b else deref d p')"
  by (cases p; cases p') simp_all

lemma assign_assign: "assign p b (assign p b' d) = assign p b d"
  by (cases p) simp_all

lemma assign_deref: "assign p (deref d p) d = d"
  by (cases p) simp_all

lemma device_heaters_assign: "p \<noteq> Heaters \<Longrightarrow> device_heaters (assign p b d) = device_heaters d"
  by (cases p) simp_all

lemma maintain_heaters_thread:
  assumes "in_range (device_heaters d) (cell g b t)" "in_range (deref d ptr) (cell g b t)"
  shows "maintain_heaters g b ptr (fst t) (snd t) d =
           Inr (if float_ne (device_heaters d ! nat (cell g b t)) (float_of_int 0)
                then assign ptr ((deref d ptr)[nat (cell g b t) := device_heaters d ! nat (cell g b t)]) d
                else d)"
  using assms
  by (simp add: maintain_heaters_def tex1Dfetch_def store_def cell_def thread_x_def thread_y_def Let_def)

lemma temperature_update_thread:
  assumes "src = bound (if flag_IO then texture_input else texture_output)"
    and "x = thread_x b t" "y = thread_y b t" "c = cell g b t"
    and "in_range (deref d src) c" "in_range (deref d src) (left_idx x c)"
      "in_range (deref d src) (right_idx side x c)" "in_range (deref d src) (upper_idx side y c)"
      "in_range (deref d src) (lower_idx side y c)" "in_range (deref d ptr) c"
  shows "temperature_update side g b ptr flag_IO (fst t) (snd t) d =
           Inr (assign ptr ((deref d ptr)[nat c :=
                  next_val (deref d src ! nat c) (deref d src ! nat (left_idx x c))
                    (deref d src ! nat (right_idx side x c)) (deref d src ! nat (upper_idx side y c))
                    (deref d src ! nat (lower_idx side y c))]) d)"
  using assms
  by (simp add: temperature_update_def tex1Dfetch_def store_def cell_def thread_x_def thread_y_def Let_def)

lemma overlay_on_empty: "overlay_on {} H B = B"
  by (simp add: overlay_on_def map_nth)

lemma overlay_on_all: "(\<And>i. i < length B \<Longrightarrow> int i \<in> S) \<Longrightarrow> overlay_on S H B = overlay H B"
  by (simp add: overlay_on_def overlay_def)

lemma length_overlay_on: "length (overlay_on S H B) = length B"
  by (simp add: overlay_on_def)

lemma overlay_on_update:
  assumes "0 \<le> c" "nat c < length B"
  shows "overlay_on S H (if float_ne (H ! nat c) (float_of_int 0) then B[nat c := H ! nat c] else B)
           = overlay_on (insert c S) H B"
  using assms
  by (auto simp: overlay_on_def nth_list_update intro!: nth_equalityI)

lemma run_maintain_heaters:
  assumes "ptr \<noteq> Heaters"
    and "\<forall>t\<in>set ts. in_range (device_heaters d) (cell g b t) \<and> in_range (deref d ptr) (cell g b t)"
  shows "run_threads (maintain_heaters g b ptr) ts d =
           Inr (assign ptr (overlay_on (cell g b ` set ts) (device_heaters d) (deref d ptr)) d)"
  using assms(2)
proof (induction ts arbitrary: d)
  case Nil
  then show ?case by (simp add: overlay_on_empty assign_deref)
next
  case (Cons t ts)
  let ?c = "cell g b t"
  let ?H = "device_heaters d"
  let ?B = "deref d ptr"
  let ?B1 = "if float_ne (?H ! nat ?c) (float_of_int 0) then ?B[nat ?c := ?H ! nat ?c] else ?B"
  let ?d1 = "assign ptr ?B1 d"
  from Cons.prems have r: "in_range ?H ?c" "in_range ?B ?c" by simp_all
  have step: "maintain_heaters g b ptr (fst t) (snd t) d = Inr ?d1"
    using maintain_heaters_thread[OF r] by (simp add: assign_deref)
  have H1: "device_heaters ?d1 = ?H"
    using assms(1) by (simp add: device_heaters_assign)
  have B1: "deref ?d1 ptr = ?B1"
    by (simp add: deref_assign)
  have len: "length ?B1 = length ?B" by simp
  have pre: "\<forall>t\<in>set ts. in_range (device_heaters ?d1) (cell g b t) \<and> in_range (deref ?d1 ptr) (cell g b t)"
    using Cons.prems unfolding H1 B1 by (simp add: in_range_def)
  have "run_threads (maintain_heaters g b ptr) (t # ts) d = run_threads (maintain_heaters g b ptr) ts ?d1"
    using step by simp
  also have "\<dots> = Inr (assign ptr (overlay_on (cell g b ` set ts) ?H ?B1) ?d1)"
    using Cons.IH[OF pre] unfolding H1 B1 .
  also have "overlay_on (cell g b ` set ts) ?H ?B1 = overlay_on (insert ?c (cell g b ` set ts)) ?H ?B"
  proof (rule overlay_on_update)
    show "0 \<le> ?c" using r by (simp add: in_range_def)
    show "nat ?c < length ?B" using r unfolding in_range_def by linarith
  qed
  finally show ?case by (simp add: assign_assign)
qed

lemma stencil_on_empty: "stencil_on {} side B out = out"
  by (simp add: stencil_on_def map_nth)

lemma stencil_on_all:
  "length out = length B \<Longrightarrow> (\<And>i. i < length B \<Longrightarrow> int i \<in> S) \<Longrightarrow> stencil_on S side B out = stencil side B"
  by (simp add: stencil_on_def stencil_def)

lemma stencil_on_update:
  assumes "0 \<le> c" "nat c < length out"
  shows "stencil_on S side B (out[nat c := stencil_cell side B c]) = stencil_on (insert c S) side B out"
  using assms
  by (auto simp: stencil_on_def nth_list_update intro!: nth_equalityI)

lemma cell_mod_div:
  fixes x y side :: int
  assumes "0 \<le> x" "x < side"
  shows "(x + y * side) mod side = x" "(x + y * side) div side = y"
  using assms by simp_all

lemma run_temperature_update:
  assumes src: "src = bound (if flag_IO then texture_input else texture_output)"
    and ne: "ptr \<noteq> src"
    and geo: "fst b * fst g = side"
    and len: "length (deref d src) = nat (side * side)" "length (deref d ptr) = nat (side * side)"
    and ts: "\<forall>t\<in>set ts. 0 \<le> thread_x b t \<and> thread_x b t < side \<and> 0 \<le> thread_y b t \<and> thread_y b t < side"
  shows "run_threads (temperature_update side g b ptr flag_IO) ts d =
           Inr (assign ptr (stencil_on (cell g b ` set ts) side (deref d src) (deref d ptr)) d)"
  using len ts
proof (induction ts arbitrary: d)
  case Nil
  then show ?case by (simp add: stencil_on_empty assign_deref)
next
  case (Cons t ts)
  let ?x = "thread_x b t" and ?y = "thread_y b t"
  let ?c = "cell g b t"
  let ?B = "deref d src"
  let ?O = "deref d ptr"
  from Cons.prems have xy: "0 \<le> ?x" "?x < side" "0 \<le> ?y" "?y < side" by simp_all
  have c: "?c = ?x + ?y * side"
    using geo by (simp add: cell_def mult.assoc)
  have md: "?c mod side = ?x" "?c div side = ?y"
    unfolding c using cell_mod_div[OF xy(1,2)] by simp_all
  note nb = neighbours_in_grid[OF xy] cell_index_bound[OF xy]
  have rng: "in_range ?B ?c" "in_range ?B (left_idx ?x ?c)" "in_range ?B (right_idx side ?x ?c)"
    "in_range ?B (upper_idx side ?y ?c)" "in_range ?B (lower_idx side ?y ?c)" "in_range ?O ?c"
    using nb Cons.prems(1,2) unfolding c in_range_def by simp_all
  let ?O1 = "?O[nat ?c := stencil_cell side ?B ?c]"
  let ?d1 = "assign ptr ?O1 d"
  have step: "temperature_update side g b ptr flag_IO (fst t) (snd t) d = Inr ?d1"
    using temperature_update_thread[OF src refl refl refl rng]
    by (simp add: stencil_cell_def md Let_def)
  have B1: "deref ?d1 src = ?B" using ne by (simp add: deref_assign)
  have O1: "deref ?d1 ptr = ?O1" by (simp add: deref_assign)
  have pre: "length (deref ?d1 src) = nat (side * side)" "length (deref ?d1 ptr) = nat (side * side)"
    "\<forall>t\<in>set ts. 0 \<le> thread_x b t \<and> thread_x b t < side \<and> 0 \<le> thread_y b t \<and> thread_y b t < side"
    using Cons.prems unfolding B1 O1 by simp_all
  have "run_threads (temperature_update side g b ptr flag_IO) (t # ts) d
          = run_threads (temperature_update side g b ptr flag_IO) ts ?d1"
    using step by simp
  also have "\<dots> = Inr (assign ptr (stencil_on (cell g b ` set ts) side ?B ?O1) ?d1)"
    using Cons.IH[OF pre] unfolding B1 O1 .
  also have "stencil_on (cell g b ` set ts) side ?B ?O1 = stencil_on (insert ?c (cell g b ` set ts)) side ?B ?O"
  proof (rule stencil_on_update)
    show "0 \<le> ?c" using rng unfolding in_range_def by simp
    show "nat ?c < length ?O" using rng unfolding in_range_def by linarith
  qed
  finally show ?case by (simp add: assign_assign)
qed

section \<open>A whole launch\<close>

lemma in_threads:
  "((bx, by), (tx, ty)) \<in> set (threads g b) \<longleftrightarrow>
      0 \<le> bx \<and> bx < fst g \<and> 0 \<le> by \<and> by < snd g \<and> 0 \<le> tx \<and> tx < fst b \<and> 0 \<le> ty \<and> ty < snd b"
  unfolding threads_def by (simp add: image_iff)

lemma thread_in_grid:
  assumes "covers side g b" "t \<in> set (threads g b)"
  shows "0 \<le> thread_x b t \<and> thread_x b t < side \<and> 0 \<le> thread_y b t \<and> thread_y b t < side"
proof -
  obtain bx "by" tx ty where t: "t = ((bx, by), (tx, ty))"
    by (metis surj_pair)
  from assms(2) have r: "0 \<le> bx" "bx < fst g" "0 \<le> by" "by < snd g" "0 \<le> tx" "tx < fst b" "0 \<le> ty" "ty < snd b"
    unfolding t in_threads by simp_all
  have bx: "0 \<le> bx * fst b" "0 \<le> by * snd b" using r by simp_all
  have "(bx + 1) * fst b \<le> fst g * fst b" using r by (intro mult_right_mono) auto
  moreover have "(by + 1) * snd b \<le> snd g * snd b" using r by (intro mult_right_mono) auto
  ultimately have "tx + bx * fst b < fst b * fst g" "ty + by * snd b < snd b * snd g"
    using r by (simp_all add: algebra_simps)
  moreover have "fst b * fst g = side" "snd b * snd g = side"
    using assms(1) unfolding covers_def by simp_all
  ultimately have "tx + bx * fst b < side" "ty + by * snd b < side" by simp_all
  moreover have "0 \<le> tx + bx * fst b" "0 \<le> ty + by * snd b" using r(5,7) bx by linarith+
  ultimately show ?thesis
    unfolding t thread_x_def thread_y_def by simp
qed

lemma int_div_less:
  fixes a d q :: int
  assumes "0 < d" "a < q * d"
  shows "a div d < q"
proof -
  have e: "d * (a div d) + a mod d = a" by simp
  have m: "0 \<le> a mod d" using assms(1) by simp
  have "a < d * q" using assms(2) by (simp add: mult.commute)
  with e m have "d * (a div d) < d * q" by linarith
  then show ?thesis using assms(1) by (simp add: mult_less_cancel_left_pos)
qed

lemma cells_of_threads:
  assumes "covers side g b"
  shows "cell g b ` set (threads g b) = {0 ..< side * side}"
proof (intro equalityI subsetI)
  fix c assume "c \<in> cell g b ` set (threads g b)"
  then obtain t where t: "t \<in> set (threads g b)" "c = cell g b t" by blast
  from thread_in_grid[OF assms t(1)] have xy: "0 \<le> thread_x b t" "thread_x b t < side"
    "0 \<le> thread_y b t" "thread_y b t < side" by simp_all
  have "c = thread_x b t + thread_y b t * side"
    using assms unfolding t(2) covers_def cell_def by (simp add: mult.assoc)
  with cell_index_bound[OF xy] show "c \<in> {0 ..< side * side}" by simp
next
  fix c assume "c \<in> {0 ..< side * side}"
  then have c: "0 \<le> c" "c < side * side" by simp_all
  from assms have b: "0 < fst b" "0 < snd b" and s: "fst b * fst g = side" "snd b * snd g = side"
    and s0: "0 \<le> side"
    unfolding covers_def by simp_all
  have "side \<noteq> 0" using c by auto
  with s0 have side: "0 < side" by simp
  define x where "x = c mod side"
  define y where "y = c div side"
  have x: "0 \<le> x" "x < side" using side by (simp_all add: x_def)
  have y0: "0 \<le> y" using c side by (simp add: y_def pos_imp_zdiv_nonneg_iff)
  have y1: "y < side" unfolding y_def using c side
    by (intro int_div_less) simp_all
  have cxy: "c = x + y * side" by (simp add: x_def y_def)
  define bx where "bx = x div fst b"
  define tx where "tx = x mod fst b"
  define bz where "bz = y div snd b"
  define tz where "tz = y mod snd b"
  have tx: "0 \<le> tx" "tx < fst b" and tz: "0 \<le> tz" "tz < snd b"
    using b by (simp_all add: tx_def tz_def)
  have bx0: "0 \<le> bx" and bz0: "0 \<le> bz"
    using x y0 b by (simp_all add: bx_def bz_def pos_imp_zdiv_nonneg_iff)
  have "x < fst g * fst b" "y < snd g * snd b" using x y1 s by (simp_all add: mult.commute)
  then have bx1: "bx < fst g" and bz1: "bz < snd g"
    unfolding bx_def bz_def using b by (simp_all add: int_div_less)
  have mem: "((bx, bz), (tx, tz)) \<in> set (threads g b)"
    unfolding in_threads using tx tz bx0 bz0 bx1 bz1 by simp
  have xe: "tx + bx * fst b = x" and ye: "tz + bz * snd b = y"
    by (simp_all add: tx_def bx_def tz_def bz_def)
  have "cell g b ((bx, bz), (tx, tz)) = x + y * (fst b * fst g)"
    unfolding cell_def thread_x_def thread_y_def using xe ye by (simp add: mult.assoc)
  then have "cell g b ((bx, bz), (tx, tz)) = c" using s cxy by simp
  with mem show "c \<in> cell g b ` set (threads g b)" by force
qed

lemma length_deref: "well_sized side d \<Longrightarrow> length (deref d p) = nat (side * side)"
  by (cases p) (simp_all add: well_sized_def)

lemma well_sized_assign:
  "well_sized side d \<Longrightarrow> length b = nat (side * side) \<Longrightarrow> well_sized side (assign p b d)"
  by (cases p) (simp_all add: well_sized_def)

lemma length_overlay: "length (overlay H B) = length B"
  by (simp add: overlay_def)

lemma length_stencil: "length (stencil side B) = length B"
  by (simp add: stencil_def)

lemma launch_maintain_heaters:
  assumes cov: "covers side g b" and ws: "well_sized side d" and ne: "ptr \<noteq> Heaters"
  shows "launch (\<lambda>g b. maintain_heaters g b ptr) g b d =
           Inr (assign ptr (overlay (device_heaters d) (deref d ptr)) d)"
proof -
  have cells: "cell g b ` set (threads g b) = {0 ..< side * side}"
    by (rule cells_of_threads[OF cov])
  have rng: "\<forall>t\<in>set (threads g b). in_range (device_heaters d) (cell g b t) \<and> in_range (deref d ptr) (cell g b t)"
  proof
    fix t assume "t \<in> set (threads g b)"
    then have "cell g b t \<in> {0 ..< side * side}" using cells by blast
    then show "in_range (device_heaters d) (cell g b t) \<and> in_range (deref d ptr) (cell g b t)"
      using ws length_deref[OF ws, of ptr] by (simp add: in_range_def well_sized_def)
  qed
  have all: "overlay_on {0 ..< side * side} (device_heaters d) (deref d ptr) = overlay (device_heaters d) (deref d ptr)"
    by (rule overlay_on_all) (simp add: length_deref[OF ws])
  show ?thesis
    unfolding launch_def run_maintain_heaters[OF ne rng] cells all ..
qed

lemma input_output_ptr: "output_ptr f \<noteq> input_ptr f" "input_ptr f \<noteq> Heaters" "output_ptr f \<noteq> Heaters"
  "input_ptr f = bound (if f then texture_input else texture_output)"
  by (simp_all add: input_ptr_def output_ptr_def)

lemma launch_temperature_update:
  assumes cov: "covers side g b" and ws: "well_sized side d"
  shows "launch (\<lambda>g b. temperature_update side g b (output_ptr flag_IO) flag_IO) g b d =
           Inr (assign (output_ptr flag_IO) (stencil side (deref d (input_ptr flag_IO))) d)"
proof -
  have cells: "cell g b ` set (threads g b) = {0 ..< side * side}"
    by (rule cells_of_threads[OF cov])
  have geo: "fst b * fst g = side" using cov by (simp add: covers_def)
  have ts: "\<forall>t\<in>set (threads g b). 0 \<le> thread_x b t \<and> thread_x b t < side \<and> 0 \<le> thread_y b t \<and> thread_y b t < side"
    using thread_in_grid[OF cov] by blast
  have all: "stencil_on {0 ..< side * side} side (deref d (input_ptr flag_IO)) (deref d (output_ptr flag_IO))
               = stencil side (deref d (input_ptr flag_IO))"
    by (rule stencil_on_all) (simp_all add: length_deref[OF ws])
  show ?thesis
    unfolding launch_def
      run_temperature_update[OF input_output_ptr(4) input_output_ptr(1) geo
        length_deref[OF ws] length_deref[OF ws] ts]
      cells all ..
qed

lemma covers_source_geometry:
  assumes "0 \<le> side" "16 dvd side"
  shows "covers side (side div 16, side div 16) (16, 16)"
  using assms by (simp add: covers_def)

lemma sub_step_eq:
  assumes s: "0 \<le> side" "16 dvd side" and ws: "well_sized side d"
  shows "sub_step side flag_IO d =
           Inr (assign (output_ptr flag_IO)
                  (stencil side (overlay (device_heaters d) (deref d (input_ptr flag_IO))))
                  (assign (input_ptr flag_IO)
                     (overlay (device_heaters d) (deref d (input_ptr flag_IO))) d))"
proof -
  note cov = covers_source_geometry[OF s]
  let ?d1 = "assign (input_ptr flag_IO) (overlay (device_heaters d) (deref d (input_ptr flag_IO))) d"
  have ws1: "well_sized side ?d1"
    by (rule well_sized_assign[OF ws]) (simp add: length_overlay length_deref[OF ws])
  show ?thesis
    unfolding sub_step_def Let_def
      launch_maintain_heaters[OF cov ws input_output_ptr(2)]
    by (simp add: launch_temperature_update[OF cov ws1] deref_assign)
qed

lemma sub_step_well_sized:
  assumes s: "0 \<le> side" "16 dvd side" and ws: "well_sized side d"
  shows "\<exists>d'. sub_step side flag_IO d = Inr d' \<and> well_sized side d'"
  unfolding sub_step_eq[OF s ws]
  by (simp add: well_sized_assign ws length_stencil length_overlay length_deref[OF ws])

lemma time_steps_flag:
  assumes s: "0 \<le> side" "16 dvd side"
  shows "well_sized side d \<Longrightarrow>
         \<exists>d'. time_steps n side flag_IO d = Inr (flag_IO = even n, d') \<and> well_sized side d'"
proof (induction n arbitrary: flag_IO d)
  case 0
  then show ?case by simp
next
  case (Suc n)
  from sub_step_well_sized[OF s Suc.prems, of flag_IO]
  obtain d1 where d1: "sub_step side flag_IO d = Inr d1" "well_sized side d1" by blast
  from Suc.IH[OF d1(2), of "\<not> flag_IO"]
  obtain d' where "time_steps n side (\<not> flag_IO) d1 = Inr ((\<not> flag_IO) = even n, d')" "well_sized side d'"
    by blast
  then show ?case using d1 by auto
qed

lemma time_steps_Suc:
  "time_steps (Suc n) side flag_IO d =
     (case time_steps n side flag_IO d of
        Inl e \<Rightarrow> Inl e
      | Inr (f, d') \<Rightarrow> (case sub_step side f d' of Inl e \<Rightarrow> Inl e | Inr d'' \<Rightarrow> Inr (\<not> f, d'')))"
proof (induction n arbitrary: flag_IO d)
  case 0
  then show ?case by (simp split: sum.splits)
next
  case (Suc n)
  show ?case
  proof (cases "sub_step side flag_IO d")
    case (Inl e)
    then show ?thesis by simp
  next
    case (Inr d1)
    have "time_steps (Suc (Suc n)) side flag_IO d = time_steps (Suc n) side (\<not> flag_IO) d1"
      using Inr by simp
    also note Suc.IH[of "\<not> flag_IO" d1]
    finally show ?thesis using Inr by simp
  qed
qed

section \<open>The properties\<close>

text \<open>
  C1.  A stencil pass over a grid of \<open>side\<close> by \<open>side\<close> cells, launched as
  \<^verbatim>\<open>animate_display\<close> does (the array written is the output array of the flag, the
  texture read is the one bound to the input array), succeeds; for every cell
  subscript \<open>idx\<close> it leaves in the output array, at \<open>idx\<close>, the value
  \<open>current_val + SPEED * gradient\<close> with
  \<open>gradient = left_val + right_val + upper_val + lower_val - 4 * current_val\<close>, the five
  values read from the input array at \<open>idx\<close> and at its adjusted neighbour
  subscripts; the input array and the heater map are as before.
\<close>

theorem stencil_pass:
  assumes "covers side gridDim blockDim" and "well_sized side d"
    and "0 \<le> idx" and "idx < side * side"
  shows "\<exists>d'. launch (\<lambda>g b. temperature_update side g b (output_ptr flag_IO) flag_IO) gridDim blockDim d = Inr d'
           \<and> deref d' (input_ptr flag_IO) = deref d (input_ptr flag_IO)
           \<and> device_heaters d' = device_heaters d
           \<and> deref d' (output_ptr flag_IO) ! nat idx =
               (let B = deref d (input_ptr flag_IO);
                    x = idx mod side;
                    y = idx div side;
                    current_val = B ! nat idx;
                    left_val = B ! nat (left_idx x idx);
                    right_val = B ! nat (right_idx side x idx);
                    upper_val = B ! nat (upper_idx side y idx);
                    lower_val = B ! nat (lower_idx side y idx);
                    gradient = fsub (fadd (fadd (fadd left_val right_val) upper_val) lower_val)
                                 (fmul (float_of_int 4) current_val)
                in fadd current_val (fmul SPEED gradient))"
proof -
  let ?B = "deref d (input_ptr flag_IO)"
  let ?d' = "assign (output_ptr flag_IO) (stencil side ?B) d"
  have run: "launch (\<lambda>g b. temperature_update side g b (output_ptr flag_IO) flag_IO) gridDim blockDim d = Inr ?d'"
    by (rule launch_temperature_update[OF assms(1,2)])
  have inp: "deref ?d' (input_ptr flag_IO) = ?B"
    using input_output_ptr(1)[of flag_IO] by (simp add: deref_assign)
  have heat: "device_heaters ?d' = device_heaters d"
    by (simp add: device_heaters_assign input_output_ptr(3))
  have "nat idx < length ?B"
    using assms(3,4) by (simp add: length_deref[OF assms(2)] nat_less_iff)
  then have "deref ?d' (output_ptr flag_IO) ! nat idx = stencil_cell side ?B idx"
    using assms(3) by (simp add: deref_assign stencil_def)
  then have out: "deref ?d' (output_ptr flag_IO) ! nat idx =
      (let B = ?B; x = idx mod side; y = idx div side;
           current_val = B ! nat idx;
           left_val = B ! nat (left_idx x idx);
           right_val = B ! nat (right_idx side x idx);
           upper_val = B ! nat (upper_idx side y idx);
           lower_val = B ! nat (lower_idx side y idx);
           gradient = fsub (fadd (fadd (fadd left_val right_val) upper_val) lower_val)
                        (fmul (float_of_int 4) current_val)
       in fadd current_val (fmul SPEED gradient))"
    by (simp add: stencil_cell_def next_val_def Let_def)
  from run inp heat out show ?thesis by blast
qed

lemma d16_sized: "well_sized 16 d16"
  by (simp add: well_sized_def d16_def)

lemma covers_16: "covers 16 (1, 1) (16, 16)"
  by (simp add: covers_def)

theorem stencil_pass_witness:
  "\<exists>d'. launch (\<lambda>g b. temperature_update 16 g b (output_ptr True) True) (1, 1) (16, 16) d16 = Inr d'
           \<and> deref d' (input_ptr True) = deref d16 (input_ptr True)
           \<and> device_heaters d' = device_heaters d16
           \<and> deref d' (output_ptr True) ! nat 17 =
               (let B = deref d16 (input_ptr True);
                    x = 17 mod 16;
                    y = 17 div 16;
                    current_val = B ! nat 17;
                    left_val = B ! nat (left_idx x 17);
                    right_val = B ! nat (right_idx 16 x 17);
                    upper_val = B ! nat (upper_idx 16 y 17);
                    lower_val = B ! nat (lower_idx 16 y 17);
                    gradient = fsub (fadd (fadd (fadd left_val right_val) upper_val) lower_val)
                                 (fmul (float_of_int 4) current_val)
                in fadd current_val (fmul SPEED gradient))"
  by (rule stencil_pass[OF covers_16 d16_sized]) simp_all

text \<open>
  C2, as amended.  The claim has the top and bottom rows read the row on the other
  side of the cell (\<open>idx + DIM\<close> at \<open>y = 0\<close>, \<open>idx - DIM\<close> at \<open>y = DIM - 1\<close>).  The kernel
  adds DIM back to \<open>idx - DIM\<close> and takes it off \<open>idx + DIM\<close>, so all four neighbours
  clamp to the cell itself: left is \<open>idx - 1\<close> unless \<open>x = 0\<close>, right is \<open>idx + 1\<close> unless
  \<open>x = DIM - 1\<close>, upper is \<open>idx - DIM\<close> unless \<open>y = 0\<close>, lower is \<open>idx + DIM\<close> unless
  \<open>y = DIM - 1\<close>, and in each exceptional case the subscript is \<open>idx\<close>.
\<close>

theorem neighbour_indices_clamp_to_self:
  "left_idx x idx = (if x = 0 then idx else idx - 1) \<and>
   right_idx side x idx = (if x = side - 1 then idx else idx + 1) \<and>
   upper_idx side y idx = (if y = 0 then idx else idx - side) \<and>
   lower_idx side y idx = (if y = side - 1 then idx else idx + side)"
  by (simp add: left_idx_def right_idx_def upper_idx_def lower_idx_def Let_def)

text \<open>
  C2 as stated fails: at cell (0, 0) the upper subscript is 0, not \<open>0 + DIM\<close>, and at
  cell (0, DIM - 1), whose subscript is 1047552, the lower subscript is 1047552, not
  \<open>1047552 - DIM\<close>.
\<close>

theorem top_bottom_reflect_counterexample:
  "upper_idx (int DIM) 0 0 = 0 \<and> upper_idx (int DIM) 0 0 \<noteq> 0 + int DIM \<and>
   lower_idx (int DIM) (int DIM - 1) 1047552 = 1047552 \<and>
   lower_idx (int DIM) (int DIM - 1) 1047552 \<noteq> 1047552 - int DIM"
  by (simp add: upper_idx_def lower_idx_def DIM_def)

text \<open>
  C9.  For a cell \<open>(x, y)\<close> of the grid, worked on by a thread of a launch whose row
  stride \<^verbatim>\<open>blockDim.x * gridDim.x\<close> is the side of the grid, the subscript of the cell
  and the four adjusted neighbour subscripts lie in \<open>[0, side * side)\<close>, and neither
  kernel body makes an access out of range: both return device memory, not the
  error.
\<close>

theorem grid_accesses_in_range:
  assumes "0 \<le> x" and "x < side" and "0 \<le> y" and "y < side"
    and "thread_x blockDim t = x" and "thread_y blockDim t = y"
    and "fst blockDim * fst gridDim = side"
    and "well_sized side d"
  shows "cell gridDim blockDim t = x + y * side
       \<and> 0 \<le> x + y * side \<and> x + y * side < side * side
       \<and> 0 \<le> left_idx x (x + y * side) \<and> left_idx x (x + y * side) < side * side
       \<and> 0 \<le> right_idx side x (x + y * side) \<and> right_idx side x (x + y * side) < side * side
       \<and> 0 \<le> upper_idx side y (x + y * side) \<and> upper_idx side y (x + y * side) < side * side
       \<and> 0 \<le> lower_idx side y (x + y * side) \<and> lower_idx side y (x + y * side) < side * side
       \<and> (\<exists>d'. maintain_heaters gridDim blockDim ptr (fst t) (snd t) d = Inr d')
       \<and> (\<exists>d'. temperature_update side gridDim blockDim ptr flag_IO (fst t) (snd t) d = Inr d')"
proof -
  note xy = assms(1-4)
  have c: "cell gridDim blockDim t = x + y * side"
    using assms(5-7) by (simp add: cell_def mult.assoc)
  note nb = neighbours_in_grid[OF xy]
  note cb = cell_index_bound[OF xy]
  define src where "src = bound (if flag_IO then texture_input else texture_output)"
  have len: "length (deref d p) = nat (side * side)" for p
    by (rule length_deref[OF assms(8)])
  have rng: "in_range (deref d p) (x + y * side)" for p
    using cb by (simp add: in_range_def len)
  have mh: "\<exists>d'. maintain_heaters gridDim blockDim ptr (fst t) (snd t) d = Inr d'"
    using maintain_heaters_thread[of d gridDim blockDim t ptr] rng[of Heaters] rng[of ptr]
    unfolding c by simp
  have tu: "\<exists>d'. temperature_update side gridDim blockDim ptr flag_IO (fst t) (snd t) d = Inr d'"
    using temperature_update_thread[OF src_def assms(5)[symmetric] assms(6)[symmetric] c[symmetric], of d side ptr]
      nb rng by (simp add: in_range_def len)
  from c cb nb mh tu show ?thesis by simp
qed

theorem grid_accesses_in_range_witness:
  "cell (1, 1) (16, 16) ((0, 0), (15, 15)) = 15 + 15 * 16
       \<and> 0 \<le> (15::int) + 15 * 16 \<and> (15::int) + 15 * 16 < 16 * 16
       \<and> 0 \<le> left_idx 15 (15 + 15 * 16) \<and> left_idx 15 (15 + 15 * 16) < 16 * 16
       \<and> 0 \<le> right_idx 16 15 (15 + 15 * 16) \<and> right_idx 16 15 (15 + 15 * 16) < 16 * 16
       \<and> 0 \<le> upper_idx 16 15 (15 + 15 * 16) \<and> upper_idx 16 15 (15 + 15 * 16) < 16 * 16
       \<and> 0 \<le> lower_idx 16 15 (15 + 15 * 16) \<and> lower_idx 16 15 (15 + 15 * 16) < 16 * 16
       \<and> (\<exists>d'. maintain_heaters (1, 1) (16, 16) Output (fst (((0, 0), (15, 15)) :: dim3 \<times> dim3)) (snd (((0, 0), (15, 15)) :: dim3 \<times> dim3)) d16 = Inr d')
       \<and> (\<exists>d'. temperature_update 16 (1, 1) (16, 16) Output True (fst (((0, 0), (15, 15)) :: dim3 \<times> dim3)) (snd (((0, 0), (15, 15)) :: dim3 \<times> dim3)) d16 = Inr d')"
  by (rule grid_accesses_in_range[where d = d16 and t = "((0, 0), (15, 15))"])
     (simp_all add: thread_x_def thread_y_def d16_sized)

lemma overlay_idem: "overlay H (overlay H B) = overlay H B"
  by (auto simp: overlay_def intro!: nth_equalityI)

lemma nth_overlay:
  "i < length B \<Longrightarrow> overlay H B ! i = (if float_ne (H ! i) (float_of_int 0) then H ! i else B ! i)"
  by (simp add: overlay_def)

text \<open>
  C3.  The worker of a cell reads the heater value of its cell and, when that value
  is not equal to 0 (the C comparison), stores it in the same cell of the target
  array, changing nothing else; when it is equal to 0 the worker changes nothing.
  So after the whole pass every cell of the target holds the heater value where
  that is nonzero and its former value where it is zero, and the other arrays are
  as before.
\<close>

theorem heater_application:
  assumes "covers side gridDim blockDim" and "well_sized side d" and "ptr \<noteq> Heaters"
    and "t \<in> set (threads gridDim blockDim)"
  shows "maintain_heaters gridDim blockDim ptr (fst t) (snd t) d =
           Inr (let c = nat (cell gridDim blockDim t); heat_source = device_heaters d ! c
                in if float_ne heat_source (float_of_int 0)
                   then assign ptr ((deref d ptr)[c := heat_source]) d else d)
       \<and> (\<exists>d'. launch (\<lambda>g b. maintain_heaters g b ptr) gridDim blockDim d = Inr d'
             \<and> (\<forall>p. p \<noteq> ptr \<longrightarrow> deref d' p = deref d p)
             \<and> length (deref d' ptr) = length (deref d ptr)
             \<and> (\<forall>i < length (deref d ptr).
                   deref d' ptr ! i =
                     (if float_ne (device_heaters d ! i) (float_of_int 0)
                      then device_heaters d ! i else deref d ptr ! i)))"
proof
  have "cell gridDim blockDim t \<in> {0 ..< side * side}"
    using cells_of_threads[OF assms(1)] assms(4) by blast
  then have "in_range (deref d p) (cell gridDim blockDim t)" for p
    by (simp add: in_range_def length_deref[OF assms(2)])
  from maintain_heaters_thread[OF this[of Heaters, simplified] this[of ptr]]
  show "maintain_heaters gridDim blockDim ptr (fst t) (snd t) d =
           Inr (let c = nat (cell gridDim blockDim t); heat_source = device_heaters d ! c
                in if float_ne heat_source (float_of_int 0)
                   then assign ptr ((deref d ptr)[c := heat_source]) d else d)"
    by (simp add: Let_def)
next
  let ?d' = "assign ptr (overlay (device_heaters d) (deref d ptr)) d"
  have "launch (\<lambda>g b. maintain_heaters g b ptr) gridDim blockDim d = Inr ?d'"
    by (rule launch_maintain_heaters[OF assms(1-3)])
  moreover have "\<forall>p. p \<noteq> ptr \<longrightarrow> deref ?d' p = deref d p"
    by (simp add: deref_assign)
  moreover have "length (deref ?d' ptr) = length (deref d ptr)"
    by (simp add: deref_assign length_overlay)
  moreover have "\<forall>i < length (deref d ptr). deref ?d' ptr ! i =
      (if float_ne (device_heaters d ! i) (float_of_int 0) then device_heaters d ! i else deref d ptr ! i)"
    by (simp add: deref_assign nth_overlay)
  ultimately show "\<exists>d'. launch (\<lambda>g b. maintain_heaters g b ptr) gridDim blockDim d = Inr d'
             \<and> (\<forall>p. p \<noteq> ptr \<longrightarrow> deref d' p = deref d p)
             \<and> length (deref d' ptr) = length (deref d ptr)
             \<and> (\<forall>i < length (deref d ptr).
                   deref d' ptr ! i =
                     (if float_ne (device_heaters d ! i) (float_of_int 0)
                      then device_heaters d ! i else deref d ptr ! i))"
    by blast
qed

lemma d16_heated_sized: "well_sized 16 d16_heated"
  by (simp add: well_sized_def d16_heated_def)

lemma heater_values:
  "float_ne MAX_TEMPERATURE (float_of_int 0)"
  "float_ne MIN_TEMPERATURE (float_of_int 0)"
  "\<not> float_ne (zero False) (float_of_int 0)"
  "float_literal 5 10 \<noteq> MAX_TEMPERATURE"
  "float_literal 25 100 \<noteq> MAX_TEMPERATURE"
  "float_literal 5 10 \<noteq> float_literal 25 100"
  by code_simp+

lemma d16_heated_cells:
  "device_heaters d16_heated ! 35 = MAX_TEMPERATURE"
  "device_heaters d16_heated ! 40 = MIN_TEMPERATURE"
  "device_heaters d16_heated ! 36 = zero False"
  "device_input d16_heated ! 35 = float_literal 5 10"
  "device_input d16_heated ! 36 = float_literal 5 10"
  "device_input d16_heated ! 40 = float_literal 5 10"
  "device_output d16_heated ! 35 = float_literal 25 100"
  "length (device_input d16_heated) = 256"
  "length (device_output d16_heated) = 256"
  by (simp_all add: d16_heated_def)

theorem heater_application_witness:
  "maintain_heaters (1, 1) (16, 16) Input (fst (((0, 0), (3, 2)) :: dim3 \<times> dim3)) (snd (((0, 0), (3, 2)) :: dim3 \<times> dim3)) d16_heated
       = Inr (d16_heated\<lparr>device_input := (device_input d16_heated)[35 := MAX_TEMPERATURE]\<rparr>)
   \<and> device_input d16_heated ! 35 \<noteq> MAX_TEMPERATURE
   \<and> (\<exists>d'. launch (\<lambda>g b. maintain_heaters g b Input) (1, 1) (16, 16) d16_heated = Inr d'
          \<and> device_heaters d' = device_heaters d16_heated
          \<and> device_output d' = device_output d16_heated
          \<and> device_input d' ! 35 = MAX_TEMPERATURE
          \<and> device_input d' ! 40 = MIN_TEMPERATURE
          \<and> device_input d' ! 36 = device_input d16_heated ! 36)"
proof -
  have mem: "((0, 0), (3, 2)) \<in> set (threads (1, 1) (16, 16))" by (simp add: in_threads)
  have ne: "Input \<noteq> Heaters" by simp
  note inst = heater_application[OF covers_16 d16_heated_sized ne mem]
  have c: "nat (cell (1, 1) (16, 16) ((0, 0), (3, 2))) = 35"
    by (simp add: cell_def thread_x_def thread_y_def)
  from inst have worker: "maintain_heaters (1, 1) (16, 16) Input (fst (((0, 0), (3, 2)) :: dim3 \<times> dim3)) (snd (((0, 0), (3, 2)) :: dim3 \<times> dim3)) d16_heated
       = Inr (d16_heated\<lparr>device_input := (device_input d16_heated)[35 := MAX_TEMPERATURE]\<rparr>)"
    unfolding c Let_def by (simp add: d16_heated_cells heater_values)
  from inst obtain d' where d': "launch (\<lambda>g b. maintain_heaters g b Input) (1, 1) (16, 16) d16_heated = Inr d'"
    and other: "\<forall>p. p \<noteq> Input \<longrightarrow> deref d' p = deref d16_heated p"
    and cells: "\<forall>i < length (deref d16_heated Input). deref d' Input ! i =
        (if float_ne (device_heaters d16_heated ! i) (float_of_int 0)
         then device_heaters d16_heated ! i else deref d16_heated Input ! i)"
    by blast
  from other have o: "device_heaters d' = device_heaters d16_heated" "device_output d' = device_output d16_heated"
    by (metis deref.simps(1) devptr.distinct(1), metis deref.simps(3) devptr.distinct(5))
  from cells have v: "device_input d' ! 35 = MAX_TEMPERATURE" "device_input d' ! 40 = MIN_TEMPERATURE"
    "device_input d' ! 36 = device_input d16_heated ! 36"
    by (simp_all add: d16_heated_cells heater_values)
  have "device_input d16_heated ! 35 \<noteq> MAX_TEMPERATURE"
    by (simp add: d16_heated_cells heater_values)
  with worker d' o v show ?thesis by blast
qed

text \<open>
  C8.  Applying the heater pass to the result of a heater pass, with the same heater
  map and target, gives that same device memory again.
\<close>

theorem heater_overlay_idempotent:
  assumes "covers side gridDim blockDim" and "well_sized side d" and "ptr \<noteq> Heaters"
  shows "\<exists>d1. launch (\<lambda>g b. maintain_heaters g b ptr) gridDim blockDim d = Inr d1
            \<and> launch (\<lambda>g b. maintain_heaters g b ptr) gridDim blockDim d1 = Inr d1"
proof -
  let ?d1 = "assign ptr (overlay (device_heaters d) (deref d ptr)) d"
  have one: "launch (\<lambda>g b. maintain_heaters g b ptr) gridDim blockDim d = Inr ?d1"
    by (rule launch_maintain_heaters[OF assms])
  have ws1: "well_sized side ?d1"
    by (rule well_sized_assign[OF assms(2)]) (simp add: length_overlay length_deref[OF assms(2)])
  have "launch (\<lambda>g b. maintain_heaters g b ptr) gridDim blockDim ?d1 =
          Inr (assign ptr (overlay (device_heaters ?d1) (deref ?d1 ptr)) ?d1)"
    by (rule launch_maintain_heaters[OF assms(1) ws1 assms(3)])
  also have "\<dots> = Inr ?d1"
    using assms(3) by (simp add: device_heaters_assign deref_assign overlay_idem assign_assign)
  finally show ?thesis using one by blast
qed

theorem heater_overlay_idempotent_witness:
  "\<exists>d1. launch (\<lambda>g b. maintain_heaters g b Output) (1, 1) (16, 16) d16_heated = Inr d1
       \<and> launch (\<lambda>g b. maintain_heaters g b Output) (1, 1) (16, 16) d1 = Inr d1
       \<and> device_output d16_heated ! 35 \<noteq> MAX_TEMPERATURE
       \<and> device_output d1 ! 35 = MAX_TEMPERATURE"
proof -
  have ne: "Output \<noteq> Heaters" by simp
  from heater_overlay_idempotent[OF covers_16 d16_heated_sized ne]
  obtain d1 where d1: "launch (\<lambda>g b. maintain_heaters g b Output) (1, 1) (16, 16) d16_heated = Inr d1"
    "launch (\<lambda>g b. maintain_heaters g b Output) (1, 1) (16, 16) d1 = Inr d1"
    by blast
  have "d1 = assign Output (overlay (device_heaters d16_heated) (deref d16_heated Output)) d16_heated"
    using d1(1) launch_maintain_heaters[OF covers_16 d16_heated_sized ne] by simp
  then have "device_output d1 ! 35 = MAX_TEMPERATURE"
    by (simp add: nth_overlay d16_heated_cells heater_values)
  moreover have "device_output d16_heated ! 35 \<noteq> MAX_TEMPERATURE"
    by (simp add: d16_heated_cells heater_values)
  ultimately show ?thesis using d1 by blast
qed

lemma time_steps_invariant:
  assumes s: "0 \<le> side" "16 dvd side"
  shows "well_sized side d \<Longrightarrow>
         \<exists>d'. time_steps n side flag_IO d = Inr (flag_IO = even n, d') \<and> well_sized side d'
              \<and> device_heaters d' = device_heaters d"
proof (induction n arbitrary: flag_IO d)
  case 0
  then show ?case by simp
next
  case (Suc n)
  define d1 where "d1 = assign (output_ptr flag_IO)
      (stencil side (overlay (device_heaters d) (deref d (input_ptr flag_IO))))
      (assign (input_ptr flag_IO) (overlay (device_heaters d) (deref d (input_ptr flag_IO))) d)"
  have st: "sub_step side flag_IO d = Inr d1"
    unfolding d1_def by (rule sub_step_eq[OF s Suc.prems])
  have ws: "well_sized side d1"
    using sub_step_well_sized[OF s Suc.prems, of flag_IO] st by simp
  have h: "device_heaters d1 = device_heaters d"
    by (simp add: d1_def device_heaters_assign input_output_ptr)
  from Suc.IH[OF ws, of "\<not> flag_IO"]
  obtain d' where "time_steps n side (\<not> flag_IO) d1 = Inr ((\<not> flag_IO) = even n, d')"
    "well_sized side d'" "device_heaters d' = device_heaters d1"
    by blast
  then show ?case using st h by auto
qed

lemma sub_step_arrays:
  assumes s: "0 \<le> side" "16 dvd side" and ws: "well_sized side d" and st: "sub_step side flag_IO d = Inr d'"
  shows "device_heaters d' = device_heaters d"
    "deref d' (input_ptr flag_IO) = overlay (device_heaters d) (deref d (input_ptr flag_IO))"
    "deref d' (output_ptr flag_IO) = stencil side (overlay (device_heaters d) (deref d (input_ptr flag_IO)))"
proof -
  have d': "d' = assign (output_ptr flag_IO)
      (stencil side (overlay (device_heaters d) (deref d (input_ptr flag_IO))))
      (assign (input_ptr flag_IO) (overlay (device_heaters d) (deref d (input_ptr flag_IO))) d)"
    using st unfolding sub_step_eq[OF s ws] by simp
  show "device_heaters d' = device_heaters d"
    by (simp add: d' device_heaters_assign input_output_ptr)
  show "deref d' (input_ptr flag_IO) = overlay (device_heaters d) (deref d (input_ptr flag_IO))"
    using input_output_ptr(1)[of flag_IO] by (simp add: d' deref_assign)
  show "deref d' (output_ptr flag_IO) = stencil side (overlay (device_heaters d) (deref d (input_ptr flag_IO)))"
    by (simp add: d' deref_assign)
qed

text \<open>
  C6.  Starting a frame with the flag true, that is with \<^verbatim>\<open>device_input\<close> as input:
  after \<open>n\<close> sub-steps the flag is true exactly when \<open>n\<close> is even, and the sub-step
  that follows treats the arrays accordingly.  When \<open>n\<close> is even it stamps the heaters
  into \<^verbatim>\<open>device_input\<close> and writes the stencil of that array to \<^verbatim>\<open>device_output\<close>; when
  \<open>n\<close> is odd it stamps the heaters into \<^verbatim>\<open>device_output\<close> and writes the stencil of that
  array to \<^verbatim>\<open>device_input\<close>.  The heater map is never written.
\<close>

theorem buffer_roles_alternate:
  assumes "0 \<le> side" and "16 dvd side" and "well_sized side d"
  shows "\<exists>dn dn1. time_steps n side True d = Inr (even n, dn)
            \<and> well_sized side dn
            \<and> input_ptr (even n) = (if even n then Input else Output)
            \<and> output_ptr (even n) = (if even n then Output else Input)
            \<and> sub_step side (even n) dn = Inr dn1
            \<and> time_steps (Suc n) side True d = Inr (odd n, dn1)
            \<and> device_heaters dn1 = device_heaters dn
            \<and> (even n \<longrightarrow>
                  device_input dn1 = overlay (device_heaters dn) (device_input dn) \<and>
                  device_output dn1 = stencil side (overlay (device_heaters dn) (device_input dn)))
            \<and> (odd n \<longrightarrow>
                  device_output dn1 = overlay (device_heaters dn) (device_output dn) \<and>
                  device_input dn1 = stencil side (overlay (device_heaters dn) (device_output dn)))"
proof -
  from time_steps_invariant[OF assms, of n True]
  obtain dn where dn: "time_steps n side True d = Inr (even n, dn)" "well_sized side dn" by auto
  from sub_step_well_sized[OF assms(1,2) dn(2), of "even n"]
  obtain dn1 where dn1: "sub_step side (even n) dn = Inr dn1" by blast
  have nxt: "time_steps (Suc n) side True d = Inr (odd n, dn1)"
    unfolding time_steps_Suc dn(1) using dn1 by simp
  note ar = sub_step_arrays[OF assms(1,2) dn(2) dn1]
  have ev: "even n \<longrightarrow>
      device_input dn1 = overlay (device_heaters dn) (device_input dn) \<and>
      device_output dn1 = stencil side (overlay (device_heaters dn) (device_input dn))"
    using ar(2,3) by (auto simp: input_ptr_def output_ptr_def)
  have od: "odd n \<longrightarrow>
      device_output dn1 = overlay (device_heaters dn) (device_output dn) \<and>
      device_input dn1 = stencil side (overlay (device_heaters dn) (device_output dn))"
    using ar(2,3) by (auto simp: input_ptr_def output_ptr_def)
  have ptrs: "input_ptr (even n) = (if even n then Input else Output)"
    "output_ptr (even n) = (if even n then Output else Input)"
    by (simp_all add: input_ptr_def output_ptr_def)
  from dn dn1 nxt ar(1) ev od ptrs show ?thesis by blast
qed

theorem buffer_roles_alternate_witness:
  "(\<exists>d1. sub_step 16 True d16_heated = Inr d1
      \<and> time_steps 1 16 True d16_heated = Inr (False, d1)
      \<and> device_input d1 = overlay (device_heaters d16_heated) (device_input d16_heated)
      \<and> device_output d1 = stencil 16 (overlay (device_heaters d16_heated) (device_input d16_heated))
      \<and> device_input d16_heated ! 35 \<noteq> MAX_TEMPERATURE
      \<and> device_input d1 ! 35 = MAX_TEMPERATURE)
   \<and> (\<exists>dn dn1. time_steps 1 16 True d16_heated = Inr (False, dn)
      \<and> sub_step 16 False dn = Inr dn1
      \<and> time_steps 2 16 True d16_heated = Inr (True, dn1)
      \<and> device_heaters dn1 = device_heaters dn
      \<and> device_output dn1 = overlay (device_heaters dn) (device_output dn)
      \<and> device_input dn1 = stencil 16 (overlay (device_heaters dn) (device_output dn))
      \<and> device_output d16_heated ! 35 \<noteq> MAX_TEMPERATURE
      \<and> device_output dn1 ! 35 = MAX_TEMPERATURE)"
proof
  have g: "(0::int) \<le> 16" "(16::int) dvd 16" by simp_all
  from buffer_roles_alternate[OF g d16_heated_sized, of 0]
  obtain d1 where r: "sub_step 16 True d16_heated = Inr d1"
    "time_steps (Suc 0) 16 True d16_heated = Inr (False, d1)"
    "device_input d1 = overlay (device_heaters d16_heated) (device_input d16_heated)"
    "device_output d1 = stencil 16 (overlay (device_heaters d16_heated) (device_input d16_heated))"
    by auto
  have "device_input d1 ! 35 = MAX_TEMPERATURE"
    unfolding r(3) by (simp add: nth_overlay d16_heated_cells heater_values)
  moreover have "device_input d16_heated ! 35 \<noteq> MAX_TEMPERATURE"
    by (simp add: d16_heated_cells heater_values)
  moreover have "time_steps 1 16 True d16_heated = Inr (False, d1)"
    using r(2) by simp
  ultimately show "\<exists>d1. sub_step 16 True d16_heated = Inr d1
      \<and> time_steps 1 16 True d16_heated = Inr (False, d1)
      \<and> device_input d1 = overlay (device_heaters d16_heated) (device_input d16_heated)
      \<and> device_output d1 = stencil 16 (overlay (device_heaters d16_heated) (device_input d16_heated))
      \<and> device_input d16_heated ! 35 \<noteq> MAX_TEMPERATURE
      \<and> device_input d1 ! 35 = MAX_TEMPERATURE"
    using r by blast
next
  have g: "(0::int) \<le> 16" "(16::int) dvd 16" by simp_all
  from buffer_roles_alternate[OF g d16_heated_sized, of 1]
  obtain dn dn1 where r: "time_steps 1 16 True d16_heated = Inr (False, dn)" "well_sized 16 dn"
    "sub_step 16 False dn = Inr dn1" "time_steps (Suc 1) 16 True d16_heated = Inr (True, dn1)"
    "device_heaters dn1 = device_heaters dn"
    "device_output dn1 = overlay (device_heaters dn) (device_output dn)"
    "device_input dn1 = stencil 16 (overlay (device_heaters dn) (device_output dn))"
    by auto
  from time_steps_invariant[OF g d16_heated_sized, of 1 True] r(1)
  have h: "device_heaters dn = device_heaters d16_heated" by auto
  have len: "35 < length (device_output dn)" using r(2) by (simp add: well_sized_def)
  have "device_output dn1 ! 35 = MAX_TEMPERATURE"
    unfolding r(6) h using len by (simp add: nth_overlay d16_heated_cells heater_values)
  moreover have "device_output d16_heated ! 35 \<noteq> MAX_TEMPERATURE"
    by (simp add: d16_heated_cells heater_values)
  moreover have "time_steps 2 16 True d16_heated = Inr (True, dn1)"
    using r(4) by (simp add: numeral_2_eq_2)
  ultimately show "\<exists>dn dn1. time_steps 1 16 True d16_heated = Inr (False, dn)
      \<and> sub_step 16 False dn = Inr dn1
      \<and> time_steps 2 16 True d16_heated = Inr (True, dn1)
      \<and> device_heaters dn1 = device_heaters dn
      \<and> device_output dn1 = overlay (device_heaters dn) (device_output dn)
      \<and> device_input dn1 = stencil 16 (overlay (device_heaters dn) (device_output dn))
      \<and> device_output d16_heated ! 35 \<noteq> MAX_TEMPERATURE
      \<and> device_output dn1 ! 35 = MAX_TEMPERATURE"
    using r by blast
qed

lemma DIM_geometry: "0 \<le> int DIM" "16 dvd int DIM"
  by (simp_all add: DIM_def)

text \<open>
  C10.  In a frame the 50th sub-step runs with the flag false, so its stencil pass
  writes \<^verbatim>\<open>device_input\<close>, from the heater-stamped \<^verbatim>\<open>device_output\<close> of the 49 sub-steps
  before it; the flag is true again after the loop, and the array handed to
  \<^verbatim>\<open>float_to_color\<close>, which is \<^verbatim>\<open>device_input\<close>, is that last result.
\<close>

theorem export_reads_final_result:
  assumes "well_sized (int DIM) d"
  shows "\<exists>d49 d50. time_steps 49 (int DIM) True d = Inr (False, d49)
           \<and> sub_step (int DIM) False d49 = Inr d50
           \<and> output_ptr False = Input
           \<and> device_input d50 = stencil (int DIM) (overlay (device_heaters d49) (device_output d49))
           \<and> time_steps TIME_STEPS_PER_FRAME (int DIM) True d = Inr (True, d50)
           \<and> animate_display d = Inr (d50, device_input d50)"
proof -
  from time_steps_flag[OF DIM_geometry assms, of 49 True]
  obtain d49 where d49: "time_steps 49 (int DIM) True d = Inr (False, d49)" "well_sized (int DIM) d49"
    by auto
  define d50 where "d50 = assign (output_ptr False)
      (stencil (int DIM) (overlay (device_heaters d49) (deref d49 (input_ptr False))))
      (assign (input_ptr False) (overlay (device_heaters d49) (deref d49 (input_ptr False))) d49)"
  have last: "sub_step (int DIM) False d49 = Inr d50"
    unfolding d50_def by (rule sub_step_eq[OF DIM_geometry d49(2)])
  have out: "output_ptr False = Input" by (simp add: output_ptr_def)
  have inp: "device_input d50 = stencil (int DIM) (overlay (device_heaters d49) (device_output d49))"
    by (simp add: d50_def input_ptr_def output_ptr_def)
  have n: "TIME_STEPS_PER_FRAME = Suc 49" by (simp add: TIME_STEPS_PER_FRAME_def)
  have "time_steps (Suc 49) (int DIM) True d = Inr (True, d50)"
    unfolding time_steps_Suc[of 49] d49(1) using last by simp
  then have fr: "time_steps TIME_STEPS_PER_FRAME (int DIM) True d = Inr (True, d50)"
    unfolding n .
  then have "animate_display d = Inr (d50, device_input d50)"
    by (simp add: animate_display_def)
  with d49(1) last out inp fr show ?thesis by blast
qed

lemma overlay_all_heaters:
  assumes "length B = length H" and "\<forall>i < length H. float_ne (H ! i) (float_of_int 0)"
  shows "overlay H B = H"
  using assms by (auto simp: overlay_def intro!: nth_equalityI)

lemma d1024_heated_sized: "well_sized (int DIM) d1024_heated"
  by (simp add: well_sized_def d1024_heated_def nat_mult_distrib DIM_def)

lemma d1024_heaters_nth:
  assumes "i < DIM * DIM"
  shows "device_heaters d1024_heated ! i = (if i = 0 then MAX_TEMPERATURE else MIN_TEMPERATURE)"
  using assms by (simp add: d1024_heated_def nth_Cons')

lemma d1024_heaters_length: "length (device_heaters d1024_heated) = DIM * DIM"
  by (simp add: d1024_heated_def DIM_def)

lemma corner_value:
  "next_val MAX_TEMPERATURE MAX_TEMPERATURE MIN_TEMPERATURE MAX_TEMPERATURE MIN_TEMPERATURE \<noteq> MAX_TEMPERATURE"
  "next_val MAX_TEMPERATURE MAX_TEMPERATURE MIN_TEMPERATURE MAX_TEMPERATURE MIN_TEMPERATURE \<noteq> float_literal 5 10"
  by code_simp+

theorem export_reads_final_result_witness:
  "\<exists>d49 d50. time_steps 49 (int DIM) True d1024_heated = Inr (False, d49)
           \<and> sub_step (int DIM) False d49 = Inr d50
           \<and> output_ptr False = Input
           \<and> device_input d50 = stencil (int DIM) (overlay (device_heaters d49) (device_output d49))
           \<and> time_steps TIME_STEPS_PER_FRAME (int DIM) True d1024_heated = Inr (True, d50)
           \<and> animate_display d1024_heated = Inr (d50, device_input d50)
           \<and> device_output d50 ! 0 = MAX_TEMPERATURE
           \<and> device_input d50 ! 0 =
                next_val MAX_TEMPERATURE MAX_TEMPERATURE MIN_TEMPERATURE MAX_TEMPERATURE MIN_TEMPERATURE
           \<and> device_input d50 ! 0 \<noteq> device_output d50 ! 0
           \<and> device_input d50 ! 0 \<noteq> device_input d1024_heated ! 0"
proof -
  let ?H = "device_heaters d1024_heated"
  from export_reads_final_result[OF d1024_heated_sized]
  obtain d49 d50 where r: "time_steps 49 (int DIM) True d1024_heated = Inr (False, d49)"
    "sub_step (int DIM) False d49 = Inr d50"
    "output_ptr False = Input"
    "device_input d50 = stencil (int DIM) (overlay (device_heaters d49) (device_output d49))"
    "time_steps TIME_STEPS_PER_FRAME (int DIM) True d1024_heated = Inr (True, d50)"
    "animate_display d1024_heated = Inr (d50, device_input d50)"
    by blast
  from time_steps_invariant[OF DIM_geometry d1024_heated_sized, of 49 True] r(1)
  have i49: "well_sized (int DIM) d49" "device_heaters d49 = ?H" by auto
  have nz: "\<forall>i < length ?H. float_ne (?H ! i) (float_of_int 0)"
    unfolding d1024_heaters_length by (simp add: d1024_heaters_nth heater_values)
  have len: "length (device_output d49) = length ?H"
    using i49(1) by (simp add: well_sized_def d1024_heaters_length nat_mult_distrib)
  have ov: "overlay (device_heaters d49) (device_output d49) = ?H"
    unfolding i49(2) by (rule overlay_all_heaters[OF len nz])
  have "device_output d50 = overlay (device_heaters d49) (device_output d49)"
    using sub_step_arrays(2)[OF DIM_geometry i49(1) r(2)] by (simp add: input_ptr_def)
  then have out: "device_output d50 = ?H" unfolding ov .
  have inp: "device_input d50 = stencil (int DIM) ?H" unfolding r(4) ov ..
  have D: "0 < DIM * DIM" "1 < DIM * DIM" "DIM < DIM * DIM" "1 < int DIM" by (simp_all add: DIM_def)
  have o0: "device_output d50 ! 0 = MAX_TEMPERATURE"
    unfolding out using D(1) by (simp add: d1024_heaters_nth)
  have idx: "left_idx 0 0 = 0" "right_idx (int DIM) 0 0 = 1" "upper_idx (int DIM) 0 0 = 0"
    "lower_idx (int DIM) 0 0 = int DIM"
    using D(4) by (simp_all add: neighbour_subscripts)
  have "device_input d50 ! 0 = stencil_cell (int DIM) ?H 0"
    unfolding inp using D(1) by (simp add: stencil_def d1024_heaters_length)
  also have "\<dots> = next_val (?H ! 0) (?H ! 0) (?H ! 1) (?H ! 0) (?H ! DIM)"
    unfolding stencil_cell_def Let_def by (simp add: idx)
  also have "\<dots> = next_val MAX_TEMPERATURE MAX_TEMPERATURE MIN_TEMPERATURE MAX_TEMPERATURE MIN_TEMPERATURE"
    using D by (simp add: d1024_heaters_nth DIM_def)
  finally have i0: "device_input d50 ! 0 =
      next_val MAX_TEMPERATURE MAX_TEMPERATURE MIN_TEMPERATURE MAX_TEMPERATURE MIN_TEMPERATURE" .
  have "device_input d1024_heated ! 0 = float_literal 5 10"
    using D(1) by (simp add: d1024_heated_def)
  then have ne: "device_input d50 ! 0 \<noteq> device_output d50 ! 0"
    "device_input d50 ! 0 \<noteq> device_input d1024_heated ! 0"
    unfolding i0 o0 using corner_value by simp_all
  from r o0 i0 ne show ?thesis by blast
qed

text \<open>A grid of fewer than 16 cells a side gets no block, and a sub-step changes nothing.\<close>

lemma sub_step_no_block:
  assumes "side div 16 = 0"
  shows "sub_step side flag_IO d = Inr d"
  using assms by (simp add: sub_step_def launch_def threads_def)

lemma covers_4: "covers 4 (1, 1) (4, 4)"
  by (simp add: covers_def)

lemma grid4_sized: "well_sized 4 grid4"
  by (simp add: well_sized_def grid4_def)

lemma grid4_cell0:
  "stencil_cell 4 (overlay (device_heaters grid4) (device_input grid4)) 0 = float_literal 6 10"
  by code_simp

text \<open>
  C5.  On the 4 by 4 grid with no heater and a single 1 at cell (0, 0), a heater pass
  and a stencil pass read 1, 0, 1 and 0 as the left, right, upper and lower
  neighbours of cell (0, 0) and leave \<open>1 + SPEED * (- 2)\<close>, which is 0.6 (the float of
  the literal \<^verbatim>\<open>0.6f\<close>), in cell (0, 0) of the output array.  The passes are launched
  as one block of 4 by 4 threads: the geometry of \<^verbatim>\<open>animate_display\<close>, DIM / 16 blocks a
  side, has no block when DIM is 4.
\<close>

theorem four_by_four_example:
  "\<exists>d1 d2. launch (\<lambda>g b. maintain_heaters g b (input_ptr True)) (1, 1) (4, 4) grid4 = Inr d1
      \<and> launch (\<lambda>g b. temperature_update 4 g b (output_ptr True) True) (1, 1) (4, 4) d1 = Inr d2
      \<and> device_input d1 ! nat (left_idx 0 0) = float_of_int 1
      \<and> device_input d1 ! nat (right_idx 4 0 0) = float_of_int 0
      \<and> device_input d1 ! nat (upper_idx 4 0 0) = float_of_int 1
      \<and> device_input d1 ! nat (lower_idx 4 0 0) = float_of_int 0
      \<and> device_output d2 ! 0 = fadd (float_of_int 1) (fmul SPEED (float_of_int (- 2)))
      \<and> device_output d2 ! 0 = float_literal 6 10"
proof -
  let ?I = "overlay (device_heaters grid4) (device_input grid4)"
  let ?d1 = "assign Input ?I grid4"
  let ?d2 = "assign Output (stencil 4 ?I) ?d1"
  have ws1: "well_sized 4 ?d1"
    by (rule well_sized_assign[OF grid4_sized]) (simp add: length_overlay grid4_def)
  have a: "launch (\<lambda>g b. maintain_heaters g b (input_ptr True)) (1, 1) (4, 4) grid4 = Inr ?d1"
    using launch_maintain_heaters[OF covers_4 grid4_sized, of Input] by (simp add: input_ptr_def)
  have b: "launch (\<lambda>g b. temperature_update 4 g b (output_ptr True) True) (1, 1) (4, 4) ?d1 = Inr ?d2"
    using launch_temperature_update[OF covers_4 ws1, of True]
    by (simp add: input_ptr_def output_ptr_def)
  have nb: "?I ! nat (left_idx 0 0) = float_of_int 1" "?I ! nat (right_idx 4 0 0) = float_of_int 0"
    "?I ! nat (upper_idx 4 0 0) = float_of_int 1" "?I ! nat (lower_idx 4 0 0) = float_of_int 0"
    by code_simp+
  have "device_output ?d2 ! 0 = stencil_cell 4 ?I 0"
    by (simp add: stencil_def length_overlay grid4_def)
  then have c: "device_output ?d2 ! 0 = float_literal 6 10"
    by (simp only: grid4_cell0)
  have v: "fadd (float_of_int 1) (fmul SPEED (float_of_int (- 2))) = float_literal 6 10"
    by code_simp
  from a b c nb v show ?thesis by simp
qed

section \<open>The host loop that builds the heater map\<close>

text \<open>Every subscript the host loops write is inside the DIM by DIM grid.\<close>

lemma host_subscripts_in_range:
  "100 + 100 * DIM < DIM * DIM" "100 + 700 * DIM < DIM * DIM"
  "300 + 300 * DIM < DIM * DIM" "700 + 200 * DIM < DIM * DIM"
  "j < 500 \<Longrightarrow> k < 900 \<Longrightarrow> j + k * DIM < DIM * DIM"
  "i < 200 \<Longrightarrow> l < DIM \<Longrightarrow> i + l * DIM < DIM * DIM"
  by (simp_all add: DIM_def)

lemma length_fold_row: "length (fold (\<lambda>j g. g[j + off := v]) js g) = length g"
  by (induction js arbitrary: g) simp_all

lemma nth_fold_row:
  assumes "i < length g"
  shows "fold (\<lambda>j g. g[j + off := v]) [a..<b] g ! i =
           (if a + off \<le> i \<and> i < b + off then v else g ! i)"
proof (induction b)
  case 0
  then show ?case by auto
next
  case (Suc b)
  show ?case
  proof (cases "a \<le> b")
    case True
    let ?h = "fold (\<lambda>j g. g[j + off := v]) [a..<b] g"
    have len: "i < length ?h" using assms by (simp add: length_fold_row)
    have "fold (\<lambda>j g. g[j + off := v]) [a..<Suc b] g ! i = ?h[b + off := v] ! i"
      using True by simp
    also have "\<dots> = (if i = b + off then v else ?h ! i)"
      using len by (simp add: nth_list_update)
    also have "\<dots> = (if a + off \<le> i \<and> i < Suc b + off then v else g ! i)"
      unfolding Suc using True by auto
    finally show ?thesis .
  next
    case False
    then show ?thesis by auto
  qed
qed

lemma length_fold_block:
  "length (fold (\<lambda>k g. fold (\<lambda>j g. g[j + k * W := v]) js g) ks g) = length g"
  by (induction ks arbitrary: g) (simp_all add: length_fold_row)

lemma nth_fold_block:
  assumes "i < length g"
  shows "fold (\<lambda>k g. fold (\<lambda>j g. g[j + k * W := v]) [a..<b] g) [c..<e] g ! i =
     (if \<exists>k. c \<le> k \<and> k < e \<and> a + k * W \<le> i \<and> i < b + k * W then v else g ! i)"
proof (induction e)
  case 0
  then show ?case by simp
next
  case (Suc e)
  show ?case
  proof (cases "c \<le> e")
    case True
    let ?h = "fold (\<lambda>k g. fold (\<lambda>j g. g[j + k * W := v]) [a..<b] g) [c..<e] g"
    have len: "i < length ?h" using assms by (simp add: length_fold_block)
    have "fold (\<lambda>k g. fold (\<lambda>j g. g[j + k * W := v]) [a..<b] g) [c..<Suc e] g ! i =
        fold (\<lambda>j g. g[j + e * W := v]) [a..<b] ?h ! i"
      using True by simp
    also have "\<dots> = (if a + e * W \<le> i \<and> i < b + e * W then v else ?h ! i)"
      by (rule nth_fold_row[OF len])
    also have "\<dots> = (if \<exists>k. c \<le> k \<and> k < Suc e \<and> a + k * W \<le> i \<and> i < b + k * W then v else g ! i)"
      unfolding Suc using True by (auto simp: less_Suc_eq)
    finally show ?thesis .
  next
    case False
    then show ?thesis by auto
  qed
qed

lemma in_block_iff:
  fixes a b c e i W :: nat
  assumes "b \<le> W"
  shows "(\<exists>k. c \<le> k \<and> k < e \<and> a + k * W \<le> i \<and> i < b + k * W) \<longleftrightarrow>
         (a \<le> i mod W \<and> i mod W < b \<and> c \<le> i div W \<and> i div W < e)"
proof
  assume "\<exists>k. c \<le> k \<and> k < e \<and> a + k * W \<le> i \<and> i < b + k * W"
  then obtain k where k: "c \<le> k" "k < e" "a + k * W \<le> i" "i < b + k * W" by blast
  have "W * k \<le> i" "i < W * Suc k" using k assms by (simp_all add: mult.commute) 
  then have d: "i div W = k" by (rule div_nat_eqI)
  have "i = i mod W + (i div W) * W" by simp
  then have "i = i mod W + k * W" unfolding d .
  then have "a \<le> i mod W \<and> i mod W < b" using k by linarith
  then show "a \<le> i mod W \<and> i mod W < b \<and> c \<le> i div W \<and> i div W < e"
    using k d by simp
next
  assume r: "a \<le> i mod W \<and> i mod W < b \<and> c \<le> i div W \<and> i div W < e"
  have "i = i mod W + (i div W) * W" by simp
  then have "a + (i div W) * W \<le> i \<and> i < b + (i div W) * W" using r by linarith
  with r show "\<exists>k. c \<le> k \<and> k < e \<and> a + k * W \<le> i \<and> i < b + k * W" by blast
qed

lemma nth_fold_block_grid:
  assumes "b \<le> W" "i < length g"
  shows "fold (\<lambda>k g. fold (\<lambda>j g. g[j + k * W := v]) [a..<b] g) [c..<e] g ! i =
     (if a \<le> i mod W \<and> i mod W < b \<and> c \<le> i div W \<and> i div W < e then v else g ! i)"
  unfolding nth_fold_block[OF assms(2)] in_block_iff[OF assms(1)] ..

lemma length_set_region: "length (set_region P v g) = length g"
  by (simp add: set_region_def)

lemma nth_set_region:
  "c < length g \<Longrightarrow> set_region P v g ! c = (if P (c mod DIM) (c div DIM) then v else g ! c)"
  by (simp add: set_region_def)

lemma length_first_upload_rules: "length first_upload_rules = DIM * DIM"
  by (simp add: first_upload_rules_def Let_def length_set_region)

lemma nth_first_upload_rules:
  assumes "c < DIM * DIM"
  shows "first_upload_rules ! c =
     (if 400 \<le> c mod DIM \<and> c mod DIM < 500 \<and> 800 \<le> c div DIM \<and> c div DIM < 900 then MIN_TEMPERATURE
      else if c mod DIM = 700 \<and> c div DIM = 200 then MIN_TEMPERATURE
      else if c mod DIM = 300 \<and> c div DIM = 300 then MIN_TEMPERATURE
      else if c mod DIM = 100 \<and> c div DIM = 700 then MIN_TEMPERATURE
      else if c mod DIM = 100 \<and> c div DIM = 100
        then fdiv (fadd MIN_TEMPERATURE MAX_TEMPERATURE) (float_of_int 2)
      else if 300 < c mod DIM \<and> c mod DIM < 600 \<and> 310 < c div DIM \<and> c div DIM < 601 then MAX_TEMPERATURE
      else float_literal 0 10)"
  using assms
  by (simp add: first_upload_rules_def Let_def nth_set_region length_set_region)

lemma cell_eq_iff:
  fixes c x y :: nat
  assumes "x < DIM"
  shows "c = x + y * DIM \<longleftrightarrow> c mod DIM = x \<and> c div DIM = y"
proof
  assume "c = x + y * DIM"
  then show "c mod DIM = x \<and> c div DIM = y" using assms by simp
next
  assume "c mod DIM = x \<and> c div DIM = y"
  moreover have "c = c mod DIM + (c div DIM) * DIM" by simp
  ultimately show "c = x + y * DIM" by simp
qed

lemma length_heaters_grid_pass: "length (heaters_grid_pass i g) = length g"
  by (simp add: heaters_grid_pass_def Let_def length_fold_block del: upt_rec_numeral)

lemma nth_heaters_grid_pass:
  assumes len: "DIM * DIM \<le> length g" and c: "c < length g" and i: "i < length g"
  shows "heaters_grid_pass i g ! c =
     (if 400 \<le> c mod DIM \<and> c mod DIM < 500 \<and> 800 \<le> c div DIM \<and> c div DIM < 900 then MIN_TEMPERATURE
      else if c = 700 + 200 * DIM then MIN_TEMPERATURE
      else if c = 300 + 300 * DIM then MIN_TEMPERATURE
      else if c = 100 + 700 * DIM then MIN_TEMPERATURE
      else if c = 100 + 100 * DIM
        then fdiv (fadd MIN_TEMPERATURE MAX_TEMPERATURE) (float_of_int 2)
      else if c = i then
        (if 300 < i mod DIM \<and> i mod DIM < 600 \<and> 310 < i div DIM \<and> i div DIM < 601 then MAX_TEMPERATURE
         else float_literal 0 10)
      else g ! c)"
proof -
  define p1 p2 p3 p4 where "p1 = 100 + 100 * DIM" and "p2 = 100 + 700 * DIM"
    and "p3 = 300 + 300 * DIM" and "p4 = 700 + 200 * DIM"
  define mid where "mid = fdiv (fadd MIN_TEMPERATURE MAX_TEMPERATURE) (float_of_int 2)"
  define base where "base = (if 300 < i mod DIM \<and> i mod DIM < 600 \<and> 310 < i div DIM \<and> i div DIM < 601
      then MAX_TEMPERATURE else float_literal 0 10)"
  define g1 where "g1 = (if 300 < i mod DIM \<and> i mod DIM < 600 \<and> 310 < i div DIM \<and> i div DIM < 601
      then g[i := float_literal 0 10, i := MAX_TEMPERATURE] else g[i := float_literal 0 10])"
  define g2 where "g2 = g1[p1 := mid]"
  define g3 where "g3 = g2[p2 := MIN_TEMPERATURE]"
  define g4 where "g4 = g3[p3 := MIN_TEMPERATURE]"
  define g5 where "g5 = g4[p4 := MIN_TEMPERATURE]"
  have D: "(500::nat) \<le> DIM" by (simp add: DIM_def)
  have p: "p1 < length g" "p2 < length g" "p3 < length g" "p4 < length g"
    using len by (simp_all add: DIM_def p1_def p2_def p3_def p4_def)
  have l1: "length g1 = length g" by (simp add: g1_def)
  have n1: "g1 ! c = (if c = i then base else g ! c)"
    using c i by (simp add: g1_def base_def nth_list_update)
  have l2: "length g2 = length g" by (simp add: g2_def l1)
  have n2: "g2 ! c = (if c = p1 then mid else g1 ! c)"
    using c p by (simp add: g2_def l1 nth_list_update)
  have l3: "length g3 = length g" by (simp add: g3_def l2)
  have n3: "g3 ! c = (if c = p2 then MIN_TEMPERATURE else g2 ! c)"
    using c p by (simp add: g3_def l2 nth_list_update)
  have l4: "length g4 = length g" by (simp add: g4_def l3)
  have n4: "g4 ! c = (if c = p3 then MIN_TEMPERATURE else g3 ! c)"
    using c p by (simp add: g4_def l3 nth_list_update)
  have l5: "length g5 = length g" by (simp add: g5_def l4)
  have n5: "g5 ! c = (if c = p4 then MIN_TEMPERATURE else g4 ! c)"
    using c p by (simp add: g5_def l4 nth_list_update)
  have pass: "heaters_grid_pass i g =
      fold (\<lambda>k g. fold (\<lambda>j g. g[j + k * DIM := MIN_TEMPERATURE]) [400..<500] g) [800..<900] g5"
    unfolding heaters_grid_pass_def Let_def g5_def g4_def g3_def g2_def g1_def mid_def
      p1_def p2_def p3_def p4_def
    by (simp del: upt_rec_numeral)
  have c5: "c < length g5" using c l5 by simp
  show ?thesis
    unfolding pass nth_fold_block_grid[OF D c5] n5 n4 n3 n2 n1
    unfolding p1_def p2_def p3_def p4_def mid_def base_def ..
qed

lemma heaters_grid_pass_rules:
  assumes len: "DIM * DIM \<le> length g" and c: "c < DIM * DIM" and i: "i < length g"
    and before: "c = i \<or> g ! c = first_upload_rules ! c"
  shows "heaters_grid_pass i g ! c = first_upload_rules ! c"
proof -
  have cl: "c < length g" using len c by simp
  have D: "(700::nat) < DIM" "(300::nat) < DIM" "(100::nat) < DIM" by (simp_all add: DIM_def)
  note pts = cell_eq_iff[OF D(1), of c 200] cell_eq_iff[OF D(2), of c 300]
    cell_eq_iff[OF D(3), of c 700] cell_eq_iff[OF D(3), of c 100]
  from before show ?thesis
  proof
    assume "c = i"
    then show ?thesis
      unfolding nth_heaters_grid_pass[OF len cl i] nth_first_upload_rules[OF c] pts by simp
  next
    assume "g ! c = first_upload_rules ! c"
    then have "g ! c =
     (if 400 \<le> c mod DIM \<and> c mod DIM < 500 \<and> 800 \<le> c div DIM \<and> c div DIM < 900 then MIN_TEMPERATURE
      else if c mod DIM = 700 \<and> c div DIM = 200 then MIN_TEMPERATURE
      else if c mod DIM = 300 \<and> c div DIM = 300 then MIN_TEMPERATURE
      else if c mod DIM = 100 \<and> c div DIM = 700 then MIN_TEMPERATURE
      else if c mod DIM = 100 \<and> c div DIM = 100
        then fdiv (fadd MIN_TEMPERATURE MAX_TEMPERATURE) (float_of_int 2)
      else if 300 < c mod DIM \<and> c mod DIM < 600 \<and> 310 < c div DIM \<and> c div DIM < 601 then MAX_TEMPERATURE
      else float_literal 0 10)"
      unfolding nth_first_upload_rules[OF c] .
    then show ?thesis
      unfolding nth_heaters_grid_pass[OF len cl i] nth_first_upload_rules[OF c] pts
      by (simp split: if_splits)
  qed
qed

lemma length_heaters_loop: "length (fold heaters_grid_pass is g) = length g"
  by (induction "is" arbitrary: g) (simp_all add: length_heaters_grid_pass)

lemma heaters_loop_rules:
  assumes len: "DIM * DIM \<le> length g"
  shows "n \<le> DIM * DIM \<Longrightarrow> c < n \<Longrightarrow> fold heaters_grid_pass [0..<n] g ! c = first_upload_rules ! c"
proof (induction n)
  case 0
  then show ?case by simp
next
  case (Suc n)
  let ?h = "fold heaters_grid_pass [0..<n] g"
  have lh: "DIM * DIM \<le> length ?h" "n < length ?h"
    using len Suc.prems by (simp_all add: length_heaters_loop)
  have c: "c < DIM * DIM" using Suc.prems by simp
  have "c = n \<or> ?h ! c = first_upload_rules ! c"
    using Suc.IH Suc.prems by (cases "c = n") simp_all
  from heaters_grid_pass_rules[OF lh(1) c lh(2) this]
  show ?case by simp
qed

text \<open>
  C4.  Whatever the host array and the device array hold at first, the heater map
  on the device after the two uploads of \<^verbatim>\<open>main\<close> is the one the rules build when
  applied in order, a later rule overriding an earlier one: all zero; MAX_TEMPERATURE
  for \<open>300 < x < 600\<close> and \<open>310 < y < 601\<close>; the midpoint at (100, 100) and
  MIN_TEMPERATURE at (100, 700), (300, 300) and (700, 200); MIN_TEMPERATURE for
  \<open>400 \<le> x < 500\<close> and \<open>800 \<le> y < 900\<close>; MAX_TEMPERATURE for \<open>x < 200\<close> and
  \<open>800 \<le> y < DIM\<close>.
\<close>

theorem heater_map_construction:
  assumes "length heaters_grid = bitmap_size" and "length (device_heaters d) = DIM * DIM"
  shows "device_heaters (main heaters_grid d) = heater_rules"
proof -
  define g1 where "g1 = fold heaters_grid_pass [0..<DIM * DIM] heaters_grid"
  define g2 where "g2 = fold (\<lambda>j g. fold (\<lambda>i g. g[i + j * DIM := MAX_TEMPERATURE]) [0..<200] g) [800..<DIM] g1"
  have q: "bitmap_size div 4 = DIM * DIM" by (simp add: bitmap_size_def)
  have len: "DIM * DIM \<le> length heaters_grid" using assms(1) by (simp add: bitmap_size_def)
  have l1: "length g1 = length heaters_grid" by (simp add: g1_def length_heaters_loop)
  have l2: "length g2 = length heaters_grid" by (simp add: g2_def length_fold_block l1)
  have m: "device_heaters (main heaters_grid d) = take (DIM * DIM) g2"
    unfolding main_def Let_def cudaMemcpy_def q g1_def[symmetric] g2_def[symmetric]
    using assms(2) l1 len by simp
  have D: "(200::nat) \<le> DIM" by (simp add: DIM_def)
  show ?thesis
    unfolding m
  proof (rule nth_equalityI)
    show "length (take (DIM * DIM) g2) = length heater_rules"
      using len l2 by (simp add: heater_rules_def length_set_region length_first_upload_rules)
  next
    fix c assume "c < length (take (DIM * DIM) g2)"
    then have c: "c < DIM * DIM" by simp
    then have c1: "c < length g1" using l1 len by simp
    have "take (DIM * DIM) g2 ! c = g2 ! c" using c by simp
    also have "\<dots> = (if 0 \<le> c mod DIM \<and> c mod DIM < 200 \<and> 800 \<le> c div DIM \<and> c div DIM < DIM
                      then MAX_TEMPERATURE else g1 ! c)"
      unfolding g2_def by (rule nth_fold_block_grid[OF D c1])
    also have "g1 ! c = first_upload_rules ! c"
      unfolding g1_def by (rule heaters_loop_rules[OF len order_refl c])
    finally show "take (DIM * DIM) g2 ! c = heater_rules ! c"
      using c by (simp add: heater_rules_def nth_set_region length_first_upload_rules)
  qed
qed

theorem heater_map_construction_witness:
  "device_heaters (main (replicate bitmap_size (zero True)) d1024) = heater_rules"
  by (rule heater_map_construction) (simp_all add: d1024_def)

section \<open>Rounding: a uniform neighbourhood\<close>

lemma rne_0: "rne a 0 = a"
  by (simp add: rne_def)

lemma rne_exact: "rne (a * 2 ^ k) k = a"
  by (simp add: rne_def)

lemma rne_shift: "rne (a * 2 ^ j) (k + j) = rne a k"
proof -
  have p: "(2::int) ^ (k + j) = 2 ^ k * 2 ^ j" by (simp add: power_add)
  have d: "(a * 2 ^ j) div (2 ^ k * 2 ^ j) = a div 2 ^ k"
    by simp
  have m: "(a * 2 ^ j) mod (2 ^ k * 2 ^ j) = (a mod 2 ^ k) * 2 ^ j"
    by simp
  have c1: "(2::int) ^ k * 2 ^ j < 2 * (a mod 2 ^ k * 2 ^ j) \<longleftrightarrow> 2 ^ k < 2 * (a mod 2 ^ k)"
    by (metis (no_types, opaque_lifting) mult.assoc mult_less_cancel_right_pos zero_less_numeral zero_less_power)
  have c2: "2 * (a mod 2 ^ k * 2 ^ j) = (2::int) ^ k * 2 ^ j \<longleftrightarrow> 2 * (a mod 2 ^ k) = 2 ^ k"
    by (metis (no_types, opaque_lifting) mult.assoc mult_cancel_right power_not_zero zero_neq_numeral)
  show ?thesis
    by (simp only: rne_def Let_def p d m c1 c2)
qed

lemma bitlen_eqI:
  assumes "2 ^ n \<le> a" "a < 2 ^ Suc n"
  shows "bitlen a = int (Suc n)"
proof -
  have u: "bitlen a \<le> int (Suc n) \<longleftrightarrow> a < 2 ^ Suc n"
    unfolding bitlen_le_iff_power nat_int by simp
  have l: "bitlen a \<le> int n \<longleftrightarrow> a < 2 ^ n"
    unfolding bitlen_le_iff_power nat_int by simp
  from assms u l have "bitlen a \<le> int (Suc n)" "\<not> bitlen a \<le> int n" by simp_all
  then show ?thesis by simp
qed

lemma bitlen_le24: "a < 2 ^ 24 \<Longrightarrow> nat (bitlen a - 24) = 0"
  using bitlen_le_iff_power[of a 24] by simp

lemma round_dyadic_shift:
  assumes "0 < a"
  shows "round_dyadic s (a * 2 ^ j) (e - int j) = round_dyadic s a e"
proof -
  define q where "q = max (e + bitlen a - 24) (- 149)"
  have bl: "bitlen (a * 2 ^ j) = bitlen a + int j"
    using assms by (rule bitlen_pow2)
  have q': "max (e - int j + bitlen (a * 2 ^ j) - 24) (- 149) = q"
    unfolding bl q_def by simp
  have M: "(if q \<le> e - int j then a * 2 ^ j * 2 ^ nat (e - int j - q) else rne (a * 2 ^ j) (nat (q - (e - int j))))
         = (if q \<le> e then a * 2 ^ nat (e - q) else rne a (nat (q - e)))"
  proof -
    consider "q \<le> e - int j" | "e - int j < q" "q \<le> e" | "e < q" by linarith
    then show ?thesis
    proof cases
      case 1
      then have "nat (e - q) = j + nat (e - int j - q)" by simp
      then show ?thesis using 1 by (simp add: power_add)
    next
      case 2
      define t where "t = nat (q - (e - int j))"
      have "j = nat (e - q) + t" using 2 by (simp add: t_def)
      then have "a * 2 ^ j = (a * 2 ^ nat (e - q)) * 2 ^ t" by (simp add: power_add)
      then have "rne (a * 2 ^ j) t = a * 2 ^ nat (e - q)" by (simp only: rne_exact)
      then show ?thesis using 2 by (simp add: t_def)
    next
      case 3
      then have "nat (q - (e - int j)) = nat (q - e) + j" by simp
      then show ?thesis using 3 by (simp add: rne_shift)
    qed
  qed
  show ?thesis
    unfolding round_dyadic_def Let_def q' M q_def[symmetric] ..
qed

lemma uint_exp: "0 \<le> X \<Longrightarrow> X < 256 \<Longrightarrow> uint (word_of_int X :: 8 word) = X"
  by (simp add: uint_word_of_int_eq take_bit_int_eq_self)

lemma uint_frac: "0 \<le> X \<Longrightarrow> X < 2 ^ 23 \<Longrightarrow> uint (word_of_int X :: 23 word) = X"
  by (simp add: uint_word_of_int_eq take_bit_int_eq_self)

lemma exp_field_uint:
  fixes w :: "8 word"
  shows "w = 0 \<longleftrightarrow> uint w = 0" "w = 255 \<longleftrightarrow> uint w = 255"
  by (simp_all add: word_uint_eq_iff)

lemma small_div_mod:
  fixes M c :: int
  assumes "0 \<le> M" "M < 2 * c"
  shows "M div c = (if c \<le> M then 1 else 0)" "M mod c = (if c \<le> M then M - c else M)"
proof -
  have c: "0 < c" using assms by linarith
  show "M div c = (if c \<le> M then 1 else 0)"
  proof (cases "c \<le> M")
    case True
    have r: "0 \<le> M - c" "M - c < c" using True assms by linarith+
    have "M div c = (M - c) div c + 1" by (rule div_pos_geq[OF c True])
    also have "(M - c) div c = 0" by (rule div_pos_pos_trivial[OF r])
    finally show ?thesis using True by simp
  next
    case False
    then have "M div c = 0" using assms(1) by (intro div_pos_pos_trivial) linarith+
    then show ?thesis using False by simp
  qed
  show "M mod c = (if c \<le> M then M - c else M)"
  proof (cases "c \<le> M")
    case True
    have r: "0 \<le> M - c" "M - c < c" using True assms by linarith+
    have "M mod c = (M - c) mod c" by (rule mod_pos_geq[OF c True])
    also have "(M - c) mod c = M - c" by (rule mod_pos_pos_trivial[OF r])
    finally show ?thesis using True by simp
  next
    case False
    then have "M mod c = M" using assms(1) by (intro mod_pos_pos_trivial) linarith+
    then show ?thesis using False by simp
  qed
qed

lemma pack_fields:
  assumes q: "- 149 \<le> q" and M: "0 \<le> M" "M < 2 ^ 24" and n: "2 ^ 23 \<le> M \<or> q = - 149"
    and fin: "(q + 149) * 2 ^ 23 + M < 255 * 2 ^ 23"
  shows "exp_field (pack s q M) \<noteq> 255" "sign_bit (pack s q M) = s"
    "mantissa (pack s q M) = M" "quantum (pack s q M) = q"
proof -
  define c :: int where "c = 2 ^ 23"
  have c: "0 < c" "c \<noteq> 0" by (simp_all add: c_def)
  have M2: "M < 2 * c" using M(2) by (simp add: c_def)
  define X where "X = ((q + 149) * c + M) div c"
  define Y where "Y = ((q + 149) * c + M) mod c"
  have fin': "(q + 149) * c + M < 255 * c" using fin by (simp add: c_def)
  have p: "pack s q M = Float s (word_of_int X) (word_of_int Y)"
    using fin' unfolding pack_def Let_def X_def Y_def c_def by simp
  have "X = (q + 149) + M div c" unfolding X_def using c by simp
  then have X: "X = (if c \<le> M then q + 150 else q + 149)"
    unfolding small_div_mod(1)[OF M(1) M2] by simp
  have "Y = M mod c" unfolding Y_def by simp
  then have Y: "Y = (if c \<le> M then M - c else M)"
    unfolding small_div_mod(2)[OF M(1) M2] .
  have "(q + 149) * c \<le> (q + 149) * c + M" using M by simp
  then have "(q + 149) * c < 255 * c" using fin' by linarith
  then have q1: "q + 149 < 255" using c by (simp add: mult_less_cancel_right)
  have q2: "c \<le> M \<Longrightarrow> q + 150 < 255"
  proof -
    assume "c \<le> M"
    then have "(q + 149) * c + c \<le> (q + 149) * c + M" by simp
    then have "(q + 150) * c < 255 * c" using fin' by (simp add: algebra_simps)
    then show ?thesis using c by (simp add: mult_less_cancel_right)
  qed
  have Xr: "0 \<le> X" "X < 255"
    using q q1 q2 unfolding X by (simp_all split: if_splits)
  have Yr: "0 \<le> Y" "Y < 2 ^ 23"
    using M M2 unfolding Y by (simp_all add: c_def split: if_splits)
  have uX: "uint (word_of_int X :: 8 word) = X" using Xr by (intro uint_exp) simp_all
  have uY: "uint (word_of_int Y :: 23 word) = Y" using Yr by (intro uint_frac) simp_all
  have z: "(word_of_int X :: 8 word) = 0 \<longleftrightarrow> X = 0" "(word_of_int X :: 8 word) = 255 \<longleftrightarrow> X = 255"
    unfolding exp_field_uint uX by simp_all
  show "exp_field (pack s q M) \<noteq> 255"
    unfolding p using Xr z by simp
  show "sign_bit (pack s q M) = s" unfolding p by simp
  show "mantissa (pack s q M) = M"
  proof (cases "c \<le> M")
    case True
    then have "X \<noteq> 0" "Y = M - c" using X Y q by simp_all
    then show ?thesis unfolding p mantissa_def using uY z by (simp add: c_def)
  next
    case False
    then have "q = - 149" using n by (simp add: c_def)
    then have "X = 0" "Y = M" using X Y False by simp_all
    then show ?thesis unfolding p mantissa_def using uY z by simp
  qed
  show "quantum (pack s q M) = q"
  proof (cases "c \<le> M")
    case True
    then have "X \<noteq> 0" "X = q + 150" using X q by simp_all
    then show ?thesis unfolding p quantum_def using uX z by simp
  next
    case False
    then have "q = - 149" using n by (simp add: c_def)
    then have "X = 0" using X False by simp
    then show ?thesis unfolding p quantum_def using z \<open>q = - 149\<close> by simp
  qed
qed

lemma pack_carry: "pack s q (2 ^ 24) = pack s (q + 1) (2 ^ 23)"
  by (simp add: pack_def algebra_simps)

lemma float_as_pack:
  assumes "exp_field x \<noteq> 255"
  shows "pack (sign_bit x) (quantum x) (mantissa x) = x"
proof -
  obtain s w f where x: "x = Float s w f" by (cases x)
  define c :: int where "c = 2 ^ 23"
  have c: "0 < c" by (simp add: c_def)
  have w: "0 \<le> uint w" "uint w < 255"
    using assms uint_lt2p[of w] unfolding x by (simp_all add: exp_field_uint order_less_le)
  have w': "uint w \<le> 254" using w by simp
  have f: "0 \<le> uint f" "uint f < c" using uint_lt2p[of f] by (simp_all add: c_def)
  define enc where "enc = (quantum x + 149) * c + mantissa x"
  have e: "enc = uint w * c + uint f"
    unfolding enc_def x quantum_def mantissa_def by (simp add: exp_field_uint c_def)
  have dm: "enc div c = uint w" "enc mod c = uint f"
    using f c unfolding e by (simp_all add: div_pos_pos_trivial mod_pos_pos_trivial)
  have "uint w * c \<le> 254 * c" using w' c by (intro mult_right_mono) simp_all
  then have fin: "enc < 255 * c" using f unfolding e by linarith
  have "pack s (quantum x) (mantissa x) = Float s (word_of_int (enc div c)) (word_of_int (enc mod c))"
    using fin unfolding pack_def Let_def enc_def c_def by simp
  then show ?thesis unfolding dm x by simp
qed

lemma bitlen_ge24: "2 ^ 23 \<le> a \<Longrightarrow> 24 \<le> bitlen a"
  using bitlen_le_iff_power[of a 23] by simp

lemma round_dyadic_at:
  assumes "- 149 \<le> e" and "2 ^ 23 \<le> a \<or> e = - 149"
  shows "round_dyadic s a e = pack s (e + int (nat (bitlen a - 24))) (rne a (nat (bitlen a - 24)))"
proof -
  define j where "j = nat (bitlen a - 24)"
  have q: "max (e + bitlen a - 24) (- 149) = e + int j"
    using assms bitlen_ge24[of a] unfolding j_def by auto
  have M: "(if e + int j \<le> e then a * 2 ^ nat (e - (e + int j)) else rne a (nat (e + int j - e))) = rne a j"
    by (cases "j = 0") (simp_all add: rne_0)
  show ?thesis
    unfolding round_dyadic_def Let_def q M unfolding j_def ..
qed

lemma rne_cases: "rne a k = a div 2 ^ k \<or> rne a k = a div 2 ^ k + 1"
  by (simp add: rne_def Let_def)

lemma rne_bounds:
  assumes "0 < a"
  shows "0 \<le> rne a (nat (bitlen a - 24))" "rne a (nat (bitlen a - 24)) \<le> 2 ^ 24"
    "2 ^ 23 \<le> a \<Longrightarrow> 2 ^ 23 \<le> rne a (nat (bitlen a - 24))"
proof -
  define j where "j = nat (bitlen a - 24)"
  define d where "d = a div 2 ^ j"
  note b = bitlen_bounds[OF assms]
  have up: "d < 2 ^ 24"
  proof (cases "bitlen a \<le> 24")
    case True
    then have "j = 0" by (simp add: j_def)
    moreover have "a < 2 ^ 24" using True bitlen_le_iff_power[of a 24] by simp
    ultimately show ?thesis by (simp add: d_def)
  next
    case False
    then have "nat (bitlen a) = 24 + j" by (simp add: j_def)
    then have "a < 2 ^ 24 * 2 ^ j" using b by (simp add: power_add)
    then show ?thesis unfolding d_def by (intro int_div_less) simp_all
  qed
  have d0: "0 \<le> d" using assms by (simp add: d_def pos_imp_zdiv_nonneg_iff)
  have lo: "2 ^ 23 \<le> d" if "2 ^ 23 \<le> a"
  proof (cases "bitlen a \<le> 24")
    case True
    then have "j = 0" by (simp add: j_def)
    then show ?thesis using that by (simp add: d_def)
  next
    case False
    then have "nat (bitlen a - 1) = 23 + j" by (simp add: j_def)
    then have "2 ^ 23 * 2 ^ j \<le> a" using b by (simp add: power_add)
    then have "(2 ^ 23 * 2 ^ j) div 2 ^ j \<le> a div 2 ^ j" by (intro zdiv_mono1) simp_all
    then show ?thesis by (simp add: d_def)
  qed
  from rne_cases[of a j] have c: "rne a j = d \<or> rne a j = d + 1" by (simp add: d_def)
  show "0 \<le> rne a (nat (bitlen a - 24))" using c d0 unfolding j_def[symmetric] by auto
  show "rne a (nat (bitlen a - 24)) \<le> 2 ^ 24" using c up unfolding j_def[symmetric] by auto
  show "2 ^ 23 \<le> a \<Longrightarrow> 2 ^ 23 \<le> rne a (nat (bitlen a - 24))"
    using c lo unfolding j_def[symmetric] by auto
qed

lemma round_stands_for:
  assumes e: "- 149 \<le> e" and a: "0 < a" and n: "2 ^ 23 \<le> a \<or> e = - 149"
    and fin: "(e + int (nat (bitlen a - 24)) + 149) * 2 ^ 23 + rne a (nat (bitlen a - 24)) < 255 * 2 ^ 23"
  shows "stands_for (round_dyadic s a e) s (round24 a) e"
proof -
  define j where "j = nat (bitlen a - 24)"
  define M where "M = rne a j"
  note fin' = fin[folded j_def, folded M_def]
  have r: "round_dyadic s a e = pack s (e + int j) M"
    unfolding j_def M_def by (rule round_dyadic_at[OF e n])
  have Mb: "0 \<le> M" "M \<le> 2 ^ 24" "2 ^ 23 \<le> a \<Longrightarrow> 2 ^ 23 \<le> M"
    using rne_bounds[OF a] unfolding M_def j_def by simp_all
  have q: "- 149 \<le> e + int j" using e by simp
  have sub: "2 ^ 23 \<le> M \<or> e + int j = - 149"
  proof (cases "2 ^ 23 \<le> a")
    case True
    then show ?thesis using Mb(3) by simp
  next
    case False
    then have "a < 2 ^ 24" by simp
    then have "j = 0" unfolding j_def by (rule bitlen_le24)
    moreover have "e = - 149" using n False by simp
    ultimately show ?thesis by simp
  qed
  have r24: "round24 a = M * 2 ^ j" by (simp add: round24_def M_def j_def)
  show ?thesis
  proof (cases "M = 2 ^ 24")
    case False
    then have M24: "M < 2 ^ 24" using Mb(2) by simp
    note pf = pack_fields[OF q Mb(1) M24 sub fin', of s]
    show ?thesis
      unfolding stands_for_def r r24 using pf by simp
  next
    case True
    have r': "round_dyadic s a e = pack s (e + int j + 1) (2 ^ 23)"
      unfolding r True by (rule pack_carry)
    have fin2: "(e + int j + 1 + 149) * 2 ^ 23 + 2 ^ 23 < (255::int) * 2 ^ 23"
      using fin' unfolding True by (simp add: algebra_simps)
    have q2: "- 149 \<le> e + int j + 1" using e by simp
    note pf = pack_fields[OF q2 _ _ _ fin2, of s]
    have p: "exp_field (pack s (e + int j + 1) (2 ^ 23)) \<noteq> 255"
      "sign_bit (pack s (e + int j + 1) (2 ^ 23)) = s"
      "mantissa (pack s (e + int j + 1) (2 ^ 23)) = 2 ^ 23"
      "quantum (pack s (e + int j + 1) (2 ^ 23)) = e + int j + 1"
      by (rule pf; simp)+
    have "nat (e + int j + 1 - e) = Suc j" by simp
    then show ?thesis
      unfolding stands_for_def r' r24 True using p by simp
  qed
qed

lemma stands_for_self:
  "exp_field x \<noteq> 255 \<Longrightarrow> stands_for x (sign_bit x) (mantissa x) (quantum x)"
  by (simp add: stands_for_def)

lemma finite_not_special:
  "exp_field x \<noteq> 255 \<Longrightarrow> \<not> is_nan x" "exp_field x \<noteq> 255 \<Longrightarrow> \<not> is_inf x"
  by (simp_all add: is_nan_def is_inf_def)

lemma mantissa_nonneg: "0 \<le> mantissa x"
  by (simp add: mantissa_def)

lemma scale_to:
  fixes m :: int
  assumes "e \<le> e0" "e0 \<le> q"
  shows "m * 2 ^ nat (q - e0) * 2 ^ nat (e0 - e) = m * 2 ^ nat (q - e)"
proof -
  have "nat (q - e) = nat (q - e0) + nat (e0 - e)" using assms by simp
  then show ?thesis by (simp add: power_add)
qed

lemma fadd_stands_for:
  assumes x: "stands_for x s A e" and y: "stands_for y s B e" and pos: "0 < A + B"
  shows "fadd x y = round_dyadic s (A + B) e"
proof -
  define e0 where "e0 = min (quantum x) (quantum y)"
  define P where "P = mantissa x * 2 ^ nat (quantum x - e0) + mantissa y * 2 ^ nat (quantum y - e0)"
  define t where "t = nat (e0 - e)"
  from x y have fx: "exp_field x \<noteq> 255" "sign_bit x = s" "e \<le> quantum x"
    "mantissa x * 2 ^ nat (quantum x - e) = A"
    and fy: "exp_field y \<noteq> 255" "sign_bit y = s" "e \<le> quantum y"
    "mantissa y * 2 ^ nat (quantum y - e) = B"
    by (simp_all add: stands_for_def)
  have le: "e \<le> e0" "e0 \<le> quantum x" "e0 \<le> quantum y"
    using fx(3) fy(3) by (simp_all add: e0_def)
  have PA: "P * 2 ^ t = A + B"
    unfolding P_def t_def distrib_right scale_to[OF le(1,2)] scale_to[OF le(1,3)] fx(4) fy(4) ..
  have P0: "0 \<le> P" unfolding P_def using mantissa_nonneg by simp
  have "P \<noteq> 0" using PA pos by auto
  with P0 have Ppos: "0 < P" by simp
  define m where "m = signed_mantissa x * 2 ^ nat (quantum x - e0) + signed_mantissa y * 2 ^ nat (quantum y - e0)"
  have m: "m = (if s then - P else P)"
    unfolding m_def P_def signed_mantissa_def fx(2) fy(2) by simp
  have m0: "m \<noteq> 0" "(m < 0) = s" "\<bar>m\<bar> = P" using Ppos unfolding m by auto
  have "fadd x y = round_dyadic (m < 0) \<bar>m\<bar> e0"
    unfolding fadd_def Let_def e0_def[symmetric] m_def[symmetric]
    using finite_not_special[OF fx(1)] finite_not_special[OF fy(1)] m0(1) by simp
  also have "\<dots> = round_dyadic s P e0" unfolding m0 ..
  also have "\<dots> = round_dyadic s (P * 2 ^ t) (e0 - int t)"
    by (rule round_dyadic_shift[OF Ppos, symmetric])
  also have "e0 - int t = e" using le(1) by (simp add: t_def)
  finally show ?thesis unfolding PA .
qed

lemma fsub_cancel:
  assumes x: "stands_for x s A e" and y: "stands_for y s A e"
  shows "fsub x y = zero False"
proof -
  define e0 where "e0 = min (quantum x) (quantum (fneg y))"
  from x y have fx: "exp_field x \<noteq> 255" "sign_bit x = s" "e \<le> quantum x"
    "mantissa x * 2 ^ nat (quantum x - e) = A"
    and fy: "exp_field y \<noteq> 255" "sign_bit y = s" "e \<le> quantum y"
    "mantissa y * 2 ^ nat (quantum y - e) = A"
    by (simp_all add: stands_for_def)
  have ny: "exp_field (fneg y) \<noteq> 255" "sign_bit (fneg y) = (\<not> s)" "quantum (fneg y) = quantum y"
    "mantissa (fneg y) = mantissa y"
    using fy by (simp_all add: fneg_def quantum_def mantissa_def)
  have le: "e \<le> e0" "e0 \<le> quantum x" "e0 \<le> quantum y"
    using fx(3) fy(3) by (simp_all add: e0_def ny)
  define X where "X = mantissa x * 2 ^ nat (quantum x - e0)"
  define Y where "Y = mantissa y * 2 ^ nat (quantum y - e0)"
  have "X * 2 ^ nat (e0 - e) = Y * 2 ^ nat (e0 - e)"
    unfolding X_def Y_def scale_to[OF le(1,2)] scale_to[OF le(1,3)] fx(4) fy(4) ..
  then have XY: "X = Y" by simp
  have m: "signed_mantissa x * 2 ^ nat (quantum x - e0)
         + signed_mantissa (fneg y) * 2 ^ nat (quantum (fneg y) - e0) = 0"
    unfolding signed_mantissa_def ny fx(2) using XY by (simp add: X_def Y_def)
  show ?thesis
    unfolding fsub_def fadd_def Let_def e0_def[symmetric] m
    using finite_not_special[OF fx(1)] finite_not_special[OF ny(1)] fx(2) ny(2) by simp
qed

lemma round24_small: "a < 2 ^ 24 \<Longrightarrow> round24 a = a"
  by (simp add: round24_def bitlen_le24 rne_0)

lemma round24_25:
  assumes "2 ^ 24 \<le> a" "a < 2 ^ 25"
  shows "round24 a = rne a 1 * 2"
proof -
  have "bitlen a = int (Suc 24)" by (rule bitlen_eqI) (use assms in simp_all)
  then show ?thesis by (simp add: round24_def)
qed

lemma round24_26:
  assumes "2 ^ 25 \<le> a" "a < 2 ^ 26"
  shows "round24 a = rne a 2 * 4"
proof -
  have "bitlen a = int (Suc 25)" by (rule bitlen_eqI) (use assms in simp_all)
  then show ?thesis by (simp add: round24_def)
qed

lemma rne_1: "rne a 1 = (if a mod 2 = 1 \<and> odd (a div 2) then a div 2 + 1 else a div 2)"
  by (simp add: rne_def Let_def)

lemma rne_2:
  "rne a 2 = (if a mod 4 = 3 \<or> (a mod 4 = 2 \<and> odd (a div 4)) then a div 4 + 1 else a div 4)"
  by (simp add: rne_def Let_def) presburger

lemma rne_1_iff: "rne a 1 = R \<longleftrightarrow> (2 * R = a \<or> (\<bar>2 * R - a\<bar> = 1 \<and> even R))"
  unfolding rne_1 by presburger

lemma rne_2_iff: "rne a 2 = R \<longleftrightarrow> (\<bar>4 * R - a\<bar> < 2 \<or> (\<bar>4 * R - a\<bar> = 2 \<and> even R))"
  unfolding rne_2 by presburger

lemma triple_round:
  fixes m :: int
  assumes "0 < m" "m < 2 ^ 24"
  shows "round24 (3 * m) < 2 ^ 26" "round24 (round24 (3 * m) + m) = 4 * m" "m \<le> round24 (3 * m)"
proof -
  define r1 where "r1 = rne (3 * m) 1"
  define r2 where "r2 = rne (3 * m) 2"
  have c1: "2 * r1 = 3 * m \<or> (\<bar>2 * r1 - 3 * m\<bar> = 1 \<and> even r1)"
    using rne_1_iff[of "3 * m" r1] by (simp add: r1_def)
  have c2: "\<bar>4 * r2 - 3 * m\<bar> < 2 \<or> (\<bar>4 * r2 - 3 * m\<bar> = 2 \<and> even r2)"
    using rne_2_iff[of "3 * m" r2] by (simp add: r2_def)
  have b1: "3 * m - 1 \<le> r1 * 2" "r1 * 2 \<le> 3 * m + 1" using c1 by linarith+
  have b2: "3 * m - 2 \<le> r2 * 4" "r2 * 4 \<le> 3 * m + 2" using c2 by linarith+
  have n11: "rne (r1 * 2 + m) 1 = 2 * m"
    unfolding rne_1_iff using c1 by presburger
  have n12: "rne (r1 * 2 + m) 2 = m"
    unfolding rne_2_iff using c1 by presburger
  have n22: "rne (r2 * 4 + m) 2 = m"
    unfolding rne_2_iff using c2 by presburger
  have n4: "rne (4 * m) 1 = 2 * m"
    unfolding rne_1_iff by simp
  consider (A) "3 * m < 2 ^ 24" "4 * m < 2 ^ 24"
    | (A') "3 * m < 2 ^ 24" "2 ^ 24 \<le> 4 * m"
    | (B1) "2 ^ 24 \<le> 3 * m" "m < 2 ^ 23"
    | (B2) "2 ^ 23 \<le> m" "3 * m < 2 ^ 25"
    | (C) "2 ^ 25 \<le> 3 * m"
    by linarith
  then have "round24 (3 * m) < 2 ^ 26 \<and> round24 (round24 (3 * m) + m) = 4 * m \<and> m \<le> round24 (3 * m)"
  proof cases
    case A
    then show ?thesis using assms by (simp add: round24_small)
  next
    case A'
    have r: "round24 (3 * m) = 3 * m" using A' by (simp add: round24_small)
    have "round24 (4 * m) = rne (4 * m) 1 * 2"
      using A' by (intro round24_25) simp_all
    then have "round24 (4 * m) = 4 * m" unfolding n4 by simp
    then show ?thesis using assms A' unfolding r by simp
  next
    case B1
    have r: "round24 (3 * m) = r1 * 2"
      unfolding r1_def using B1 by (intro round24_25) simp_all
    have "round24 (r1 * 2 + m) = rne (r1 * 2 + m) 1 * 2"
      using B1 b1 by (intro round24_25) simp_all
    then have "round24 (r1 * 2 + m) = 4 * m" unfolding n11 by simp
    then show ?thesis using assms B1 b1 unfolding r by simp
  next
    case B2
    have r: "round24 (3 * m) = r1 * 2"
      unfolding r1_def using B2 by (intro round24_25) simp_all
    have m23: "8388608 \<le> m" using B2(1) by simp
    have "33554432 \<le> r1 * 2 + m" using m23 c1 by presburger
    then have lo: "2 ^ 25 \<le> r1 * 2 + m" by simp
    have "round24 (r1 * 2 + m) = rne (r1 * 2 + m) 2 * 4"
      using B2 b1 lo assms by (intro round24_26) simp_all
    then have "round24 (r1 * 2 + m) = 4 * m" unfolding n12 by simp
    then show ?thesis using assms B2 b1 unfolding r by simp
  next
    case C
    have r: "round24 (3 * m) = r2 * 4"
      unfolding r2_def using C assms by (intro round24_26) simp_all
    have "round24 (r2 * 4 + m) = rne (r2 * 4 + m) 2 * 4"
      using C b2 assms by (intro round24_26) simp_all
    then have "round24 (r2 * 4 + m) = 4 * m" unfolding n22 by simp
    then show ?thesis using assms C b2 unfolding r by simp
  qed
  then show "round24 (3 * m) < 2 ^ 26" "round24 (round24 (3 * m) + m) = 4 * m" "m \<le> round24 (3 * m)"
    by simp_all
qed

lemma round24_double:
  fixes m :: int
  assumes "0 < m" "m < 2 ^ 24"
  shows "round24 (2 * m) = 2 * m"
proof (cases "2 * m < 2 ^ 24")
  case True
  then show ?thesis by (rule round24_small)
next
  case False
  then have "round24 (2 * m) = rne (2 * m) 1 * 2"
    using assms by (intro round24_25) simp_all
  moreover have "rne (2 * m) 1 = m" unfolding rne_1_iff by simp
  ultimately show ?thesis by simp
qed

lemma round24_quadruple:
  fixes m :: int
  assumes "0 < m" "m < 2 ^ 24"
  shows "round24 (4 * m) = 4 * m"
proof -
  consider "4 * m < 2 ^ 24" | "2 ^ 24 \<le> 4 * m" "4 * m < 2 ^ 25" | "2 ^ 25 \<le> 4 * m" by linarith
  then show ?thesis
  proof cases
    case 1
    then show ?thesis by (rule round24_small)
  next
    case 2
    then have "round24 (4 * m) = rne (4 * m) 1 * 2" by (intro round24_25) simp_all
    moreover have "rne (4 * m) 1 = 2 * m" unfolding rne_1_iff by simp
    ultimately show ?thesis by simp
  next
    case 3
    then have "round24 (4 * m) = rne (4 * m) 2 * 4" using assms by (intro round24_26) simp_all
    moreover have "rne (4 * m) 2 = m" unfolding rne_2_iff by simp
    ultimately show ?thesis by simp
  qed
qed

lemma no_overflow:
  assumes e: "e \<le> 102" and a: "0 < a" and r: "round24 a < 2 ^ 26"
  shows "(e + int (nat (bitlen a - 24)) + 149) * 2 ^ 23 + rne a (nat (bitlen a - 24)) < 255 * 2 ^ 23"
proof -
  define j where "j = nat (bitlen a - 24)"
  define M where "M = rne a j"
  have Mb: "M \<le> 2 ^ 24" "2 ^ 23 \<le> a \<Longrightarrow> 2 ^ 23 \<le> M"
    using rne_bounds[OF a] unfolding M_def j_def by simp_all
  have r': "M * 2 ^ j < 2 ^ 26" using r by (simp add: round24_def M_def j_def)
  have j2: "j \<le> 2"
  proof (rule ccontr)
    assume "\<not> j \<le> 2"
    then have j3: "3 \<le> j" by simp
    then have "24 \<le> bitlen a" by (simp add: j_def)
    then have "\<not> bitlen a \<le> 23" by simp
    then have "2 ^ 23 \<le> a" using bitlen_le_iff_power[of a 23] by simp
    then have M23: "2 ^ 23 \<le> M" by (rule Mb(2))
    have "(2::int) ^ 3 \<le> 2 ^ j" using j3 by (intro power_increasing) simp_all
    then have "(2::int) ^ 23 * 2 ^ 3 \<le> M * 2 ^ j" using M23 by (intro mult_mono) simp_all
    then show False using r' by simp
  qed
  have "M < 2 ^ 24" if "j = 2" using r' that by simp
  then have "(e + int j + 149) * 2 ^ 23 + M < 255 * 2 ^ 23"
    using e j2 Mb(1) by (cases "j = 2") simp_all
  then show ?thesis unfolding M_def j_def .
qed

lemma finite_fields:
  assumes "uint (exp_field c) \<le> 252" and "\<not> is_zero c"
  shows "exp_field c \<noteq> 255" "- 149 \<le> quantum c" "quantum c \<le> 102"
    "0 < mantissa c" "mantissa c < 2 ^ 24" "2 ^ 23 \<le> mantissa c \<or> quantum c = - 149"
proof -
  obtain s w f where c: "c = Float s w f" by (cases c)
  define W where "W = uint w"
  define F where "F = uint f"
  have F: "0 \<le> F" "F < 2 ^ 23" using uint_lt2p[of f] by (simp_all add: F_def)
  have W: "0 \<le> W" "W \<le> 252" using assms(1) by (simp_all add: W_def c)
  have w0: "w = 0 \<longleftrightarrow> W = 0" and w255: "w \<noteq> 255"
    using W by (auto simp: W_def exp_field_uint)
  have fz: "W = 0 \<Longrightarrow> F \<noteq> 0"
    using assms(2) unfolding c is_zero_def by (simp add: W_def F_def word_uint_eq_iff)
  have man: "mantissa c = (if W = 0 then F else 2 ^ 23 + F)"
    by (simp add: c mantissa_def w0 F_def)
  have qua: "quantum c = (if W = 0 then - 149 else W - 150)"
    by (simp add: c quantum_def w0 W_def)
  show "exp_field c \<noteq> 255" using w255 by (simp add: c)
  show "- 149 \<le> quantum c" unfolding qua using W by auto
  show "quantum c \<le> 102" unfolding qua using W by auto
  show "0 < mantissa c" unfolding man using F fz by auto
  show "mantissa c < 2 ^ 24" unfolding man using F by auto
  show "2 ^ 23 \<le> mantissa c \<or> quantum c = - 149" unfolding man qua using F by auto
qed

lemma float_of_int_four: "float_of_int 4 = Float False 129 0"
  by code_simp

lemma speed_times_zero: "fmul SPEED (zero False) = zero False"
  by code_simp

lemma fmul_four:
  assumes "exp_field c \<noteq> 255" and "0 < mantissa c"
  shows "fmul (float_of_int 4) c = round_dyadic (sign_bit c) (4 * mantissa c) (quantum c)"
proof -
  have q: "quantum (Float False 129 0) = - 21" "mantissa (Float False 129 0) = 2 ^ 23"
    by (simp_all add: quantum_def mantissa_def)
  have np: "mantissa (Float False 129 0) * mantissa c \<noteq> 0" using assms(2) unfolding q by simp
  have "fmul (float_of_int 4) c = round_dyadic (sign_bit c) (2 ^ 23 * mantissa c) (- 21 + quantum c)"
    unfolding float_of_int_four fmul_def Let_def using np finite_not_special[OF assms(1)]
    by (simp add: q is_nan_def is_inf_def)
  also have "2 ^ 23 * mantissa c = (4 * mantissa c) * 2 ^ 21" by simp
  also have "- 21 + quantum c = quantum c - int 21" by simp
  also have "round_dyadic (sign_bit c) (4 * mantissa c * 2 ^ 21) (quantum c - int 21)
      = round_dyadic (sign_bit c) (4 * mantissa c) (quantum c)"
    by (rule round_dyadic_shift) (use assms(2) in simp)
  finally show ?thesis .
qed

lemma fadd_zero_right:
  assumes fin: "exp_field c \<noteq> 255" and e: "- 149 \<le> quantum c"
    and m: "0 < mantissa c" "mantissa c < 2 ^ 24" and n: "2 ^ 23 \<le> mantissa c \<or> quantum c = - 149"
  shows "fadd c (zero False) = c"
proof -
  define t where "t = nat (quantum c + 149)"
  have z: "quantum (zero False) = - 149" "signed_mantissa (zero False) = 0"
    "\<not> is_nan (zero False)" "\<not> is_inf (zero False)"
    by (simp_all add: zero_def quantum_def signed_mantissa_def mantissa_def is_nan_def is_inf_def)
  have mn: "min (quantum c) (- 149) = - 149" using e by simp
  have tt: "nat (quantum c - - 149) = t" by (simp add: t_def)
  define P where "P = mantissa c * 2 ^ t"
  have P: "0 < P" using m(1) by (simp add: P_def)
  have sm: "signed_mantissa c * 2 ^ t = (if sign_bit c then - P else P)"
    by (simp add: signed_mantissa_def P_def)
  have "fadd c (zero False) = round_dyadic (sign_bit c) P (- 149)"
    unfolding fadd_def Let_def z mn tt sm
    using finite_not_special[OF fin] z(3,4) P by auto
  also have "- 149 = quantum c - int t" using e by (simp add: t_def)
  also have "round_dyadic (sign_bit c) P (quantum c - int t) = round_dyadic (sign_bit c) (mantissa c) (quantum c)"
    unfolding P_def by (rule round_dyadic_shift[OF m(1)])
  also have "\<dots> = pack (sign_bit c) (quantum c) (mantissa c)"
    unfolding round_dyadic_at[OF e n] using bitlen_le24[OF m(2)] by (simp add: rne_0)
  also have "\<dots> = c" by (rule float_as_pack[OF fin])
  finally show ?thesis .
qed

lemma next_val_fixed:
  assumes fin: "uint (exp_field c) \<le> 252" and nz: "\<not> is_zero c"
  shows "next_val c c c c c = c"
proof -
  define s where "s = sign_bit c"
  define m where "m = mantissa c"
  define e where "e = quantum c"
  note ff = finite_fields[OF fin nz, folded m_def e_def]
  have c: "stands_for c s m e"
    unfolding s_def m_def e_def by (rule stands_for_self[OF ff(1)])
  note tr = triple_round[OF ff(4,5)]
  have n2: "2 ^ 23 \<le> 2 * m \<or> e = - 149" "2 ^ 23 \<le> 3 * m \<or> e = - 149"
    "2 ^ 23 \<le> round24 (3 * m) + m \<or> e = - 149" "2 ^ 23 \<le> 4 * m \<or> e = - 149"
    using ff(4,6) tr(3) by auto
  have p: "0 < 2 * m" "0 < 3 * m" "0 < round24 (3 * m) + m" "0 < 4 * m"
    using ff(4) tr(3) by simp_all
  have r2: "round24 (2 * m) = 2 * m" by (rule round24_double[OF ff(4,5)])
  have r4: "round24 (4 * m) = 4 * m" by (rule round24_quadruple[OF ff(4,5)])
  have b: "round24 (2 * m) < 2 ^ 26" "round24 (round24 (3 * m) + m) < 2 ^ 26" "round24 (4 * m) < 2 ^ 26"
    unfolding r2 r4 tr(2) using ff(5) by simp_all
  \<comment> \<open>left + right\<close>
  have t1: "fadd c c = round_dyadic s (2 * m) e"
    using fadd_stands_for[OF c c] p(1) by simp
  have s1: "stands_for (fadd c c) s (2 * m) e"
    unfolding t1 using round_stands_for[OF ff(2) p(1) n2(1) no_overflow[OF ff(3) p(1) b(1)], of s]
    unfolding r2 .
  \<comment> \<open>+ upper\<close>
  have t2: "fadd (fadd c c) c = round_dyadic s (3 * m) e"
    using fadd_stands_for[OF s1 c] p(2) by simp
  have s2: "stands_for (fadd (fadd c c) c) s (round24 (3 * m)) e"
    unfolding t2 by (rule round_stands_for[OF ff(2) p(2) n2(2) no_overflow[OF ff(3) p(2) tr(1)]])
  \<comment> \<open>+ lower\<close>
  have t3: "fadd (fadd (fadd c c) c) c = round_dyadic s (round24 (3 * m) + m) e"
    by (rule fadd_stands_for[OF s2 c p(3)])
  have s3: "stands_for (fadd (fadd (fadd c c) c) c) s (4 * m) e"
    unfolding t3 using round_stands_for[OF ff(2) p(3) n2(3) no_overflow[OF ff(3) p(3) b(2)], of s]
    unfolding tr(2) .
  \<comment> \<open>4 * current\<close>
  have t4: "fmul (float_of_int 4) c = round_dyadic s (4 * m) e"
    unfolding s_def m_def e_def by (rule fmul_four[OF ff(1) ff(4)[unfolded m_def]])
  have s4: "stands_for (fmul (float_of_int 4) c) s (4 * m) e"
    unfolding t4 using round_stands_for[OF ff(2) p(4) n2(4) no_overflow[OF ff(3) p(4) b(3)], of s]
    unfolding r4 .
  have gradient: "fsub (fadd (fadd (fadd c c) c) c) (fmul (float_of_int 4) c) = zero False"
    by (rule fsub_cancel[OF s3 s4])
  have "fadd c (zero False) = c"
    by (rule fadd_zero_right[OF ff(1) ff(2)[unfolded e_def] ff(4,5)[unfolded m_def] ff(6)[unfolded m_def e_def]])
  then show ?thesis
    unfolding next_val_def Let_def gradient speed_times_zero .
qed

lemma is_zero_eq: "is_zero x \<Longrightarrow> x = zero (sign_bit x)"
  by (cases x) (simp add: is_zero_def zero_def)

lemma zero_ops:
  "fadd (zero a) (zero b) = zero (a \<and> b)"
  "fsub (zero a) (zero b) = zero (a \<and> \<not> b)"
  "fmul (float_of_int 4) (zero a) = zero a"
  "fmul SPEED (zero a) = zero a"
proof -
  show "fadd (zero a) (zero b) = zero (a \<and> b)"
    by (simp add: fadd_def zero_def is_nan_def is_inf_def signed_mantissa_def mantissa_def)
  show "fsub (zero a) (zero b) = zero (a \<and> \<not> b)"
    by (simp add: fsub_def fneg_def fadd_def zero_def is_nan_def is_inf_def signed_mantissa_def mantissa_def)
  show "fmul (float_of_int 4) (zero a) = zero a"
    unfolding float_of_int_four by (simp add: fmul_def zero_def is_nan_def is_inf_def mantissa_def)
  show "fmul SPEED (zero a) = zero a"
    unfolding constant_bits(3) by (simp add: fmul_def zero_def is_nan_def is_inf_def mantissa_def)
qed

lemma next_val_zeros:
  assumes "is_zero c" "is_zero l" "is_zero r" "is_zero u" "is_zero lo"
  shows "is_zero (next_val c l r u lo)"
proof -
  from assms obtain a b d f g where z: "c = zero a" "l = zero b" "r = zero d" "u = zero f" "lo = zero g"
    using is_zero_eq by blast
  have "\<exists>h. next_val c l r u lo = zero h"
    unfolding z next_val_def Let_def zero_ops by blast
  then show ?thesis by (auto simp: is_zero_def zero_def)
qed

lemma next_val_uniform:
  assumes fin: "uint (exp_field c) \<le> 252"
    and eq: "float_eq l c" "float_eq r c" "float_eq u c" "float_eq lo c"
  shows "float_eq (next_val c l r u lo) c \<and> (\<not> is_zero c \<longrightarrow> next_val c l r u lo = c)"
proof (cases "is_zero c")
  case True
  then have "is_zero l" "is_zero r" "is_zero u" "is_zero lo"
    using eq by (auto simp: float_eq_def)
  from next_val_zeros[OF True this] have "is_zero (next_val c l r u lo)" .
  then show ?thesis using True by (auto simp: float_eq_def is_zero_def is_nan_def)
next
  case False
  then have "l = c" "r = c" "u = c" "lo = c" using eq by (auto simp: float_eq_def)
  then have "next_val c l r u lo = c" using next_val_fixed[OF fin False] by simp
  moreover have "\<not> is_nan c" using fin by (auto simp: is_nan_def)
  ultimately show ?thesis by (simp add: float_eq_def)
qed

text \<open>
  C7, as amended.  For every interior cell whose value is finite with an exponent
  field of at most 252 (a magnitude below \<open>2 ^ 126\<close>, so that four times the value is
  still finite) and whose four neighbours in the input array compare equal to it,
  the stencil pass writes a value that compares equal to the current value; it is
  the current value itself unless that is a zero.
\<close>

theorem uniform_field_fixed_point:
  assumes "covers side gridDim blockDim" and "well_sized side d"
    and "0 < x" and "x < side - 1" and "0 < y" and "y < side - 1"
    and "idx = x + y * side"
    and "B = deref d (input_ptr flag_IO)"
    and "uint (exp_field (B ! nat idx)) \<le> 252"
    and "float_eq (B ! nat (idx - 1)) (B ! nat idx)"
    and "float_eq (B ! nat (idx + 1)) (B ! nat idx)"
    and "float_eq (B ! nat (idx - side)) (B ! nat idx)"
    and "float_eq (B ! nat (idx + side)) (B ! nat idx)"
  shows "\<exists>d'. launch (\<lambda>g b. temperature_update side g b (output_ptr flag_IO) flag_IO) gridDim blockDim d = Inr d'
           \<and> float_eq (deref d' (output_ptr flag_IO) ! nat idx) (B ! nat idx)
           \<and> (\<not> is_zero (B ! nat idx) \<longrightarrow> deref d' (output_ptr flag_IO) ! nat idx = B ! nat idx)"
proof -
  let ?d' = "assign (output_ptr flag_IO) (stencil side B) d"
  have run: "launch (\<lambda>g b. temperature_update side g b (output_ptr flag_IO) flag_IO) gridDim blockDim d = Inr ?d'"
    unfolding assms(8) by (rule launch_temperature_update[OF assms(1,2)])
  have xy: "0 \<le> x" "x < side" "0 \<le> y" "y < side" using assms(3-6) by simp_all
  have md: "idx mod side = x" "idx div side = y"
    unfolding assms(7) using cell_mod_div[OF xy(1,2)] by simp_all
  have "0 \<le> idx" "idx < side * side"
    unfolding assms(7) using cell_index_bound[OF xy] by simp_all
  then have "nat idx < length B"
    unfolding assms(8) by (simp add: length_deref[OF assms(2)] nat_less_iff)
  then have "deref ?d' (output_ptr flag_IO) ! nat idx = stencil_cell side B idx"
    using \<open>0 \<le> idx\<close> by (simp add: deref_assign stencil_def)
  also have "\<dots> = next_val (B ! nat idx) (B ! nat (idx - 1)) (B ! nat (idx + 1))
                      (B ! nat (idx - side)) (B ! nat (idx + side))"
    unfolding stencil_cell_def Let_def md neighbour_subscripts using assms(3-6) by simp
  finally have out: "deref ?d' (output_ptr flag_IO) ! nat idx =
      next_val (B ! nat idx) (B ! nat (idx - 1)) (B ! nat (idx + 1))
        (B ! nat (idx - side)) (B ! nat (idx + side))" .
  from next_val_uniform[OF assms(9-13)] run show ?thesis
    unfolding out[symmetric] by blast
qed

theorem uniform_field_fixed_point_witness:
  "\<exists>d'. launch (\<lambda>g b. temperature_update 16 g b (output_ptr True) True) (1, 1) (16, 16) d16 = Inr d'
           \<and> float_eq (deref d' (output_ptr True) ! nat 17) (device_input d16 ! nat 17)
           \<and> (\<not> is_zero (device_input d16 ! nat 17) \<longrightarrow>
                 deref d' (output_ptr True) ! nat 17 = device_input d16 ! nat 17)"
  by (rule uniform_field_fixed_point[OF covers_16 d16_sized, where x = 1 and y = 1])
     (simp_all add: input_ptr_def d16_def constant_bits(1) float_eq_def is_nan_def)

lemma stencil_cell_uniform:
  assumes "0 < side" "0 \<le> idx" "idx < side * side"
  shows "stencil_cell side (replicate (nat (side * side)) v) idx = next_val v v v v v"
proof -
  define x where "x = idx mod side"
  define y where "y = idx div side"
  have x: "0 \<le> x" "x < side" using assms(1) by (simp_all add: x_def)
  have y: "0 \<le> y" "y < side"
    using assms by (simp_all add: y_def pos_imp_zdiv_nonneg_iff int_div_less)
  have idx: "idx = x + y * side" by (simp add: x_def y_def)
  note nb = neighbours_in_grid[OF x y, folded idx]
  have n: "0 \<le> i \<Longrightarrow> i < side * side \<Longrightarrow> replicate (nat (side * side)) v ! nat i = v" for i
    by (simp add: nat_less_iff)
  show ?thesis
    unfolding stencil_cell_def Let_def x_def[symmetric] y_def[symmetric]
    using nb assms(2,3) by (simp add: n)
qed

lemma stencil_uniform:
  assumes "0 < side"
  shows "stencil side (replicate (nat (side * side)) v) = replicate (nat (side * side)) (next_val v v v v v)"
proof (rule nth_equalityI)
  show "length (stencil side (replicate (nat (side * side)) v)) = length (replicate (nat (side * side)) (next_val v v v v v))"
    by (simp add: length_stencil)
next
  fix i assume "i < length (stencil side (replicate (nat (side * side)) v))"
  then have i: "i < nat (side * side)" by (simp add: length_stencil)
  then have "int i < side * side" by linarith
  then have "stencil_cell side (replicate (nat (side * side)) v) (int i) = next_val v v v v v"
    by (intro stencil_cell_uniform[OF assms]) simp_all
  then show "stencil side (replicate (nat (side * side)) v) ! i = replicate (nat (side * side)) (next_val v v v v v) ! i"
    using i by (simp add: stencil_def)
qed

lemma overflow_value:
  "next_val (Float False 253 0) (Float False 253 0) (Float False 253 0) (Float False 253 0) (Float False 253 0) = nan"
  by code_simp

text \<open>
  C7 as stated fails.  On the 4 by 4 grid whose cells all hold \<open>2 ^ 126\<close>, every cell
  equals its neighbours, yet the sum of the four neighbours and four times the cell
  are both infinite, their difference is a NaN, and the pass writes a NaN to every
  cell, the interior cell 5 included.
\<close>

theorem uniform_overflow_counterexample:
  "float_eq (device_input hot4 ! 4) (device_input hot4 ! 5) \<and>
   float_eq (device_input hot4 ! 6) (device_input hot4 ! 5) \<and>
   float_eq (device_input hot4 ! 1) (device_input hot4 ! 5) \<and>
   float_eq (device_input hot4 ! 9) (device_input hot4 ! 5) \<and>
   launch (\<lambda>g b. temperature_update 4 g b Output True) (1, 1) (4, 4) hot4
     = Inr (hot4\<lparr>device_output := replicate 16 nan\<rparr>) \<and>
   \<not> float_eq (replicate 16 nan ! 5) (device_input hot4 ! 5)"
proof -
  have ws: "well_sized 4 hot4" by (simp add: well_sized_def hot4_def)
  have "stencil 4 (replicate (nat (4 * 4)) (Float False 253 0)) = replicate (nat (4 * 4)) nan"
    unfolding overflow_value[symmetric] by (rule stencil_uniform) simp
  then have st: "stencil 4 (device_input hot4) = replicate 16 nan"
    by (simp add: hot4_def)
  have run: "launch (\<lambda>g b. temperature_update 4 g b Output True) (1, 1) (4, 4) hot4
     = Inr (hot4\<lparr>device_output := replicate 16 nan\<rparr>)"
    using launch_temperature_update[OF covers_4 ws, of True]
    by (simp add: input_ptr_def output_ptr_def st)
  have eq: "float_eq (Float False 253 0) (Float False 253 0)"
    by (simp add: float_eq_def is_nan_def)
  have ne: "\<not> float_eq nan (Float False 253 0)"
    by (simp add: float_eq_def is_nan_def nan_def)
  have cells: "device_input hot4 ! 4 = Float False 253 0" "device_input hot4 ! 5 = Float False 253 0"
    "device_input hot4 ! 6 = Float False 253 0" "device_input hot4 ! 1 = Float False 253 0"
    "device_input hot4 ! 9 = Float False 253 0" "replicate 16 nan ! 5 = nan"
    by (simp_all add: hot4_def)
  show ?thesis unfolding cells using run eq ne by simp
qed

end
